theory Spec2Isabelle
  imports Main "HOL-Library.Char_ord" "HOL-Library.List_Lexorder"
begin

section \<open>Strings of the host language\<close>

text \<open>
  The converter is TypeScript. A source string is modelled as a \<^typ>\<open>string\<close>, one
  \<^typ>\<open>char\<close> per code unit, so the model covers the code units U+0000 to U+00FF.
  The library methods the converter calls (\<open>trim\<close>, \<open>split\<close>, \<open>join\<close>,
  \<open>startsWith\<close>, \<open>includes\<close>, \<open>indexOf\<close>, \<open>substring\<close>) are written out below with
  the behaviour the language standard gives them on such strings.
\<close>

definition LF :: char where "LF = CHR 0x0A"
definition CR :: char where "CR = CHR 0x0D"

text \<open>White space and line terminators that \<open>trim\<close> strips, among the code units up to U+00FF:
  TAB, LF, VT, FF, CR, SPACE and NBSP.\<close>

definition isWhiteSpace :: "char \<Rightarrow> bool" where
  "isWhiteSpace c \<longleftrightarrow>
     c = CHR 0x09 \<or> c = CHR 0x0A \<or> c = CHR 0x0B \<or> c = CHR 0x0C \<or> c = CHR 0x0D
     \<or> c = CHR 0x20 \<or> c = CHR 0xA0"

definition isLineTerminator :: "char \<Rightarrow> bool" where
  "isLineTerminator c \<longleftrightarrow> c = CHR 0x0A \<or> c = CHR 0x0D"

definition trim :: "string \<Rightarrow> string" where
  "trim s = rev (dropWhile isWhiteSpace (rev (dropWhile isWhiteSpace s)))"

definition startsWith :: "string \<Rightarrow> string \<Rightarrow> bool" where
  "startsWith s p \<longleftrightarrow> take (length p) s = p"

fun includesStr :: "string \<Rightarrow> string \<Rightarrow> bool" where
  "includesStr [] p = (p = [])"
| "includesStr (c # cs) p = (startsWith (c # cs) p \<or> includesStr cs p)"

text \<open>\<open>s.split(sep)\<close> for a one-character separator: the pieces between the separators,
  empty pieces kept; the empty string gives one empty piece.\<close>

fun consFirst :: "char \<Rightarrow> string list \<Rightarrow> string list" where
  "consFirst c [] = [[c]]"
| "consFirst c (x # xs) = (c # x) # xs"

fun splitChar :: "char \<Rightarrow> string \<Rightarrow> string list" where
  "splitChar sep [] = [[]]"
| "splitChar sep (c # cs) =
     (if c = sep then [] # splitChar sep cs else consFirst c (splitChar sep cs))"

text \<open>\<open>xs.join(sep)\<close>.\<close>

fun join :: "string \<Rightarrow> string list \<Rightarrow> string" where
  "join sep [] = []"
| "join sep [x] = x"
| "join sep (x # y # ys) = x @ sep @ join sep (y # ys)"

text \<open>\<open>text.split(/\r\n|\r|\n/)\<close>: a CR LF pair is one separator, a lone CR or LF is one
  too.\<close>

fun splitLines :: "string \<Rightarrow> string list" where
  "splitLines [] = [[]]"
| "splitLines [c] = (if c = CR \<or> c = LF then [[], []] else [[c]])"
| "splitLines (c # d # cs) =
     (if c = CR \<and> d = LF then [] # splitLines cs
      else if c = CR \<or> c = LF then [] # splitLines (d # cs)
      else consFirst c (splitLines (d # cs)))"

text \<open>\<open>xs[i] || ''\<close>: the element, or the empty string past the end.\<close>

definition nthOrEmpty :: "string list \<Rightarrow> nat \<Rightarrow> string" where
  "nthOrEmpty xs i = (if i < length xs then xs ! i else [])"

section \<open>Name splitting (both converters)\<close>

text \<open>
  \<^verbatim>\<open>const parts = fullName.trim().split(' ');
  const firstName = parts[0] || '';
  const lastName = parts.slice(1).join(' ') || '';\<close>
\<close>

definition parseName :: "string \<Rightarrow> string \<times> string" where
  "parseName fullName =
     (let parts = splitChar (CHR '' '') (trim fullName)
      in (nthOrEmpty parts 0, join '' '' (drop 1 parts)))"

section \<open>The fixed-schema converter (src/lib/vcf-converter.ts)\<close>

record Contact =
  firstName :: string
  lastName :: string
  phone1 :: string
  phone2 :: string
  phone3 :: string
  email1 :: string
  email2 :: string
  email3 :: string
  addresses :: string

text \<open>
  \<open>line.match(/KW[^:]*:(.+)/)\<close> for a keyword \<open>KW\<close> without a colon: the leftmost position
  where \<open>KW\<close> starts and is followed, after characters other than a colon, by a colon and at
  least one character that is not a line terminator. The result is the capture group: the
  longest run of such characters after that colon.
\<close>

fun matchAfter :: "string \<Rightarrow> string \<Rightarrow> string option" where
  "matchAfter kw [] = None"
| "matchAfter kw (c # cs) =
     (if startsWith (c # cs) kw then
        (case dropWhile (\<lambda>x. x \<noteq> CHR '':'') (drop (length kw) (c # cs)) of
           [] \<Rightarrow> matchAfter kw cs
         | _ # v \<Rightarrow>
             (if takeWhile (\<lambda>x. \<not> isLineTerminator x) v \<noteq> []
              then Some (takeWhile (\<lambda>x. \<not> isLineTerminator x) v)
              else matchAfter kw cs))
      else matchAfter kw cs)"

text \<open>The local variables of the fixed-schema \<open>parseVCard\<close>; the list the source calls
  \<open>addresses\<close> is \<open>addressList\<close> here, since the record has a field of that name.\<close>

record vars =
  fullName :: string
  phoneNumbers :: "string list"
  emails :: "string list"
  addressList :: "string list"

definition initVars :: vars where
  "initVars = \<lparr>fullName = [], phoneNumbers = [], emails = [], addressList = []\<rparr>"

text \<open>One iteration of the loop over the lines.\<close>

definition lineStep :: "vars \<Rightarrow> string \<Rightarrow> vars" where
  "lineStep st line =
     (let trimmedLine = trim line in
      if startsWith trimmedLine ''FN:'' then st\<lparr>fullName := drop 3 trimmedLine\<rparr>
      else if startsWith trimmedLine ''TEL:'' \<or> includesStr trimmedLine ''TEL;'' then
        (case matchAfter ''TEL'' trimmedLine of
           Some m \<Rightarrow> st\<lparr>phoneNumbers := phoneNumbers st @ [trim m]\<rparr>
         | None \<Rightarrow> st)
      else if startsWith trimmedLine ''EMAIL:'' \<or> includesStr trimmedLine ''EMAIL;'' then
        (case matchAfter ''EMAIL'' trimmedLine of
           Some m \<Rightarrow> st\<lparr>emails := emails st @ [trim m]\<rparr>
         | None \<Rightarrow> st)
      else if startsWith trimmedLine ''ADR:'' \<or> includesStr trimmedLine ''ADR;'' then
        (case matchAfter ''ADR'' trimmedLine of
           Some m \<Rightarrow>
             (let addrParts = filter (\<lambda>part. trim part \<noteq> []) (splitChar (CHR '';'') m)
              in if length addrParts > 0
                 then st\<lparr>addressList := addressList st @ [join '', '' addrParts]\<rparr>
                 else st)
         | None \<Rightarrow> st)
      else st)"

text \<open>The record built after the loop.\<close>

definition buildContact :: "vars \<Rightarrow> Contact" where
  "buildContact st =
     (let (first, last) = parseName (fullName st) in
      \<lparr>firstName = first, lastName = last,
       phone1 = nthOrEmpty (phoneNumbers st) 0,
       phone2 = nthOrEmpty (phoneNumbers st) 1,
       phone3 = nthOrEmpty (phoneNumbers st) 2,
       email1 = nthOrEmpty (emails st) 0,
       email2 = nthOrEmpty (emails st) 1,
       email3 = nthOrEmpty (emails st) 2,
       addresses = join '', '' (addressList st)\<rparr>)"

definition parseVCard :: "string \<Rightarrow> Contact" where
  "parseVCard vcardText = buildContact (foldl lineStep initVars (splitLines vcardText))"

subsection \<open>Splitting a document at the card-start marker\<close>

text \<open>
  \<open>/BEGIN:VCARD/i\<close> compares each character with the pattern's after mapping both to upper
  case. The pattern has ASCII letters and a colon only, and no code unit outside ASCII is
  mapped to an ASCII one, so the mapping is written on the ASCII letters.
\<close>

definition canonicalize :: "char \<Rightarrow> char" where
  "canonicalize c =
     (case map_of (zip ''abcdefghijklmnopqrstuvwxyz'' ''ABCDEFGHIJKLMNOPQRSTUVWXYZ'') c of
        Some u \<Rightarrow> u | None \<Rightarrow> c)"

fun matchesAt :: "string \<Rightarrow> string \<Rightarrow> bool" where
  "matchesAt [] s = True"
| "matchesAt (p # ps) [] = False"
| "matchesAt (p # ps) (c # cs) = (canonicalize c = canonicalize p \<and> matchesAt ps cs)"

definition marker :: string where
  "marker = ''BEGIN:VCARD''"

text \<open>
  \<open>text.split(/BEGIN:VCARD/i)\<close>: scan from the left; at a match close the current piece and
  continue after the match, otherwise move one character on. \<open>seg\<close> is the piece being
  collected.
\<close>

function splitMarker :: "string \<Rightarrow> string \<Rightarrow> string list" where
  "splitMarker seg [] = [seg]"
| "splitMarker seg (c # cs) =
     (if matchesAt marker (c # cs) then seg # splitMarker [] (drop (length marker) (c # cs))
      else splitMarker (seg @ [c]) cs)"
  by pat_completeness auto
termination
  by (relation "measure (\<lambda>(seg, s). length s)") (auto simp: marker_def)

definition parseVCF :: "string \<Rightarrow> Contact list" where
  "parseVCF vcfContent =
     map (\<lambda>block. parseVCard (''BEGIN:VCARD'' @ block)) (drop 1 (splitMarker [] vcfContent))"

subsection \<open>Serialising the fixed-schema records\<close>

definition headers :: "string list" where
  "headers = [''First Name'', ''Last Name'', ''Phone 1'', ''Phone 2'', ''Phone 3'',
              ''Email 1'', ''Email 2'', ''Email 3'', ''Addresses'']"

definition quoted :: "string \<Rightarrow> string" where
  "quoted v = ''\"'' @ v @ ''\"''"

definition contactRow :: "Contact \<Rightarrow> string list" where
  "contactRow contact =
     [quoted (firstName contact), quoted (lastName contact),
      quoted (phone1 contact), quoted (phone2 contact), quoted (phone3 contact),
      quoted (email1 contact), quoted (email2 contact), quoted (email3 contact),
      quoted (addresses contact)]"

definition convertToCSV :: "Contact list \<Rightarrow> string" where
  "convertToCSV contacts =
     join [LF] (foldl (\<lambda>csvLines contact. csvLines @ [join '','' (contactRow contact)])
                  [join '','' headers] contacts)"

section \<open>The dynamic-schema converter (the later revision of vcf-converter.ts)\<close>

text \<open>
  A dynamic-schema record is an object with string keys and string values. It is modelled
  as the list of its own properties in the order they were created; assigning to an
  existing key keeps the key's place. Reading a key the object does not have falls back to
  the members every object inherits; the places where that can happen are modelled where
  they occur (\<open>normalizeFieldName\<close>, \<open>cell\<close>).
\<close>

type_synonym DynContact = "(string \<times> string) list"

fun setProp :: "string \<Rightarrow> string \<Rightarrow> DynContact \<Rightarrow> DynContact" where
  "setProp k v [] = [(k, v)]"
| "setProp k v (p # ps) = (if fst p = k then (k, v) # ps else p # setProp k v ps)"

definition getProp :: "DynContact \<Rightarrow> string \<Rightarrow> string option" where
  "getProp obj k = map_of obj k"

text \<open>\<open>!obj[k]\<close>: the property is missing or the empty string.\<close>

definition unset :: "DynContact \<Rightarrow> string \<Rightarrow> bool" where
  "unset obj k \<longleftrightarrow> getProp obj k = None \<or> getProp obj k = Some []"

subsection \<open>Label normalisation\<close>

text \<open>
  \<open>toUpperCase\<close> and \<open>toLowerCase\<close> on the code units modelled, by the Unicode case mapping
  the language standard prescribes (no locale enters). Upper case: the letters a to z and
  U+00E0 to U+00FE, the division sign U+00F7 apart, go 32 code units down; the sharp s U+00DF
  becomes the two letters SS; everything else stays. Lower case: A to Z and U+00C0 to U+00DE,
  the multiplication sign U+00D7 apart, go 32 code units up; everything else stays.
  Two code units have their upper case outside the code units modelled: the micro sign
  U+00B5 (upper case U+039C) and U+00FF (upper case U+0178). \<open>upperCaseOf\<close> leaves them as
  they are, so the model is exact on strings that have neither; \<open>caseMapped\<close> below says
  so of a string.
\<close>

definition upperCaseOf :: "char \<Rightarrow> string" where
  "upperCaseOf c =
     (let n = (of_char c :: nat) in
      if (97 \<le> n \<and> n \<le> 122) \<or> (224 \<le> n \<and> n \<le> 254 \<and> n \<noteq> 247) then [char_of (n - 32)]
      else if n = 223 then ''SS''
      else [c])"

definition lowerCaseOf :: "char \<Rightarrow> char" where
  "lowerCaseOf c =
     (let n = (of_char c :: nat) in
      if (65 \<le> n \<and> n \<le> 90) \<or> (192 \<le> n \<and> n \<le> 222 \<and> n \<noteq> 215) then char_of (n + 32)
      else c)"

definition toUpperCase :: "string \<Rightarrow> string" where
  "toUpperCase s = concat (map upperCaseOf s)"

definition toLowerCase :: "string \<Rightarrow> string" where
  "toLowerCase s = map lowerCaseOf s"

definition caseMapped :: "string \<Rightarrow> bool" where
  "caseMapped s \<longleftrightarrow> CHR 0xB5 \<notin> set s \<and> CHR 0xFF \<notin> set s"

definition fieldMapping :: "(string \<times> string) list" where
  "fieldMapping =
     [(''FN'', ''Full Name''), (''N'', ''Name''), (''ORG'', ''Organization''),
      (''TITLE'', ''Title''), (''ROLE'', ''Role''), (''BDAY'', ''Birthday''),
      (''URL'', ''Website''), (''NOTE'', ''Notes''), (''NICKNAME'', ''Nickname''),
      (''CATEGORIES'', ''Categories'')]"

text \<open>
  \<open>fieldMapping\<close> is an object literal, so \<open>fieldMapping[fieldType]\<close> also finds the members
  every object inherits. They are functions (and, for \<open>__proto__\<close>, an object), all truthy,
  and the program goes on to use the result as a string: the table gives that string, in
  the rendering of the V8 engine.
\<close>

definition nativeFunction :: "string \<Rightarrow> string" where
  "nativeFunction name = ''function '' @ name @ ''() { [native code] }''"

definition inheritedMembers :: "(string \<times> string) list" where
  "inheritedMembers =
     [(''constructor'', nativeFunction ''Object''),
      (''__defineGetter__'', nativeFunction ''__defineGetter__''),
      (''__defineSetter__'', nativeFunction ''__defineSetter__''),
      (''hasOwnProperty'', nativeFunction ''hasOwnProperty''),
      (''__lookupGetter__'', nativeFunction ''__lookupGetter__''),
      (''__lookupSetter__'', nativeFunction ''__lookupSetter__''),
      (''isPrototypeOf'', nativeFunction ''isPrototypeOf''),
      (''propertyIsEnumerable'', nativeFunction ''propertyIsEnumerable''),
      (''toString'', nativeFunction ''toString''),
      (''valueOf'', nativeFunction ''valueOf''),
      (''__proto__'', ''[object Object]''),
      (''toLocaleString'', nativeFunction ''toLocaleString'')]"

definition inheritedNames :: "string list" where
  "inheritedNames = map fst inheritedMembers"

text \<open>\<open>params.find(p => p.startsWith('TYPE='))\<close>.\<close>

definition findTypeParam :: "string list \<Rightarrow> string option" where
  "findTypeParam params = List.find (\<lambda>p. startsWith p ''TYPE='') params"

text \<open>
  \<^verbatim>\<open>const type = typeParam.split('=')[1];
  baseName += ` ${type.charAt(0).toUpperCase() + type.slice(1).toLowerCase()}`;\<close>
  A parameter that starts with \<open>TYPE=\<close> always has a second piece.
\<close>

definition withType :: "string \<Rightarrow> string list \<Rightarrow> string" where
  "withType baseName params =
     (case findTypeParam params of
        None \<Rightarrow> baseName
      | Some typeParam \<Rightarrow>
          (let type = nthOrEmpty (splitChar (CHR ''='') typeParam) 1
           in baseName @ '' '' @ toUpperCase (take 1 type) @ toLowerCase (drop 1 type)))"

definition normalizeFieldName :: "string \<Rightarrow> string" where
  "normalizeFieldName vcfField =
     (let fieldType = nthOrEmpty (splitChar (CHR '';'') vcfField) 0;
          params = drop 1 (splitChar (CHR '';'') vcfField);
          baseName =
            (case map_of (fieldMapping @ inheritedMembers) fieldType of
               Some name \<Rightarrow> name
             | None \<Rightarrow> fieldType)
      in if fieldType = ''TEL'' then withType ''Phone'' params
         else if fieldType = ''EMAIL'' then withType ''Email'' params
         else if fieldType = ''ADR'' then withType ''Address'' params
         else baseName)"

subsection \<open>Extraction of one card\<close>

text \<open>Decimal rendering of a count, as a template literal gives it.\<close>

fun showNat :: "nat \<Rightarrow> string" where
  "showNat n =
     (if n < 10 then [''0123456789'' ! n]
      else showNat (n div 10) @ [''0123456789'' ! (n mod 10)])"

declare showNat.simps [simp del]

record dynVars =
  contact :: DynContact
  fieldCounts :: "string \<rightharpoonup> nat"

definition initDynVars :: dynVars where
  "initDynVars = \<lparr>contact = [], fieldCounts = Map.empty\<rparr>"

text \<open>A missing count reads as \<open>undefined\<close>, which the program replaces by 0 before
  counting.\<close>

definition countOf :: "(string \<rightharpoonup> nat) \<Rightarrow> string \<Rightarrow> nat" where
  "countOf counts k = (case counts k of None \<Rightarrow> 0 | Some n \<Rightarrow> n)"

text \<open>
  The block the program has twice, for address lines and for all other lines:
  \<^verbatim>\<open>if (!fieldCounts[key]) fieldCounts[key] = 0;
  fieldCounts[key]++;
  const finalFieldName = fieldCounts[key] > 1 ? `${key} ${fieldCounts[key]}` : key;
  contact[finalFieldName] = v;\<close>
\<close>

definition storeCounted :: "string \<Rightarrow> string \<Rightarrow> dynVars \<Rightarrow> dynVars" where
  "storeCounted key v st =
     (let n = countOf (fieldCounts st) key + 1;
          finalFieldName = (if n > 1 then key @ '' '' @ showNat n else key)
      in \<lparr>contact = setProp finalFieldName v (contact st),
          fieldCounts = (fieldCounts st)(key \<mapsto> n)\<rparr>)"

fun indexOf :: "string \<Rightarrow> char \<Rightarrow> nat option" where
  "indexOf [] ch = None"
| "indexOf (c # cs) ch = (if c = ch then Some 0 else map_option Suc (indexOf cs ch))"

text \<open>One iteration of the loop over the lines; every \<open>continue\<close> returns the state.\<close>

definition lineStepDyn :: "dynVars \<Rightarrow> string \<Rightarrow> dynVars" where
  "lineStepDyn st line =
     (let trimmedLine = trim line in
      if trimmedLine = [] \<or> trimmedLine = ''BEGIN:VCARD'' \<or> trimmedLine = ''END:VCARD''
         \<or> startsWith trimmedLine ''VERSION:'' then st
      else
        (case indexOf trimmedLine (CHR '':'') of
           None \<Rightarrow> st
         | Some colonIndex \<Rightarrow>
            (let fieldPart = take colonIndex trimmedLine;
                 val = trim (drop (colonIndex + 1) trimmedLine)
             in if val = [] then st
                else if fieldPart = ''FN'' then
                  (let (first, last) = parseName val
                   in st\<lparr>contact :=
                          setProp ''Last Name'' last (setProp ''First Name'' first (contact st))\<rparr>)
                else if fieldPart = ''N'' then
                  (let nameParts = splitChar (CHR '';'') val;
                       c1 = (if nthOrEmpty nameParts 1 \<noteq> [] \<and> unset (contact st) ''First Name''
                             then setProp ''First Name'' (nthOrEmpty nameParts 1) (contact st)
                             else contact st);
                       c2 = (if nthOrEmpty nameParts 0 \<noteq> [] \<and> unset c1 ''Last Name''
                             then setProp ''Last Name'' (nthOrEmpty nameParts 0) c1
                             else c1)
                   in st\<lparr>contact := c2\<rparr>)
                else if startsWith fieldPart ''ADR'' then
                  (let addrParts = filter (\<lambda>part. trim part \<noteq> []) (splitChar (CHR '';'') val)
                   in if length addrParts > 0
                      then storeCounted (normalizeFieldName fieldPart) (join '', '' addrParts) st
                      else st)
                else storeCounted (normalizeFieldName fieldPart) val st)))"

text \<open>After the loop: both name keys exist.\<close>

definition ensureNames :: "DynContact \<Rightarrow> DynContact" where
  "ensureNames c =
     (let c1 = (if unset c ''First Name'' then setProp ''First Name'' [] c else c)
      in if unset c1 ''Last Name'' then setProp ''Last Name'' [] c1 else c1)"

definition parseVCardDyn :: "string \<Rightarrow> DynContact" where
  "parseVCardDyn vcardText =
     ensureNames (contact (foldl lineStepDyn initDynVars (splitLines vcardText)))"

definition parseVCFDyn :: "string \<Rightarrow> DynContact list" where
  "parseVCFDyn vcfContent =
     map (\<lambda>block. parseVCardDyn (''BEGIN:VCARD'' @ block)) (drop 1 (splitMarker [] vcfContent))"

subsection \<open>Serialising the dynamic-schema records\<close>

text \<open>
  \<open>Object.keys\<close> lists the keys that are array indices (canonical decimal numerals below
  \<open>2^32 - 1\<close>) first, in ascending numeric order, then the other keys in creation order.
\<close>

definition digitValue :: "char \<Rightarrow> nat option" where
  "digitValue c = map_of (zip ''0123456789'' [0 ..< 10]) c"

definition natOfDigits :: "string \<Rightarrow> nat" where
  "natOfDigits s = foldl (\<lambda>n c. 10 * n + (case digitValue c of Some d \<Rightarrow> d | None \<Rightarrow> 0)) 0 s"

definition isArrayIndex :: "string \<Rightarrow> bool" where
  "isArrayIndex s \<longleftrightarrow>
     s \<noteq> [] \<and> list_all (\<lambda>c. digitValue c \<noteq> None) s \<and> (s = ''0'' \<or> take 1 s \<noteq> ''0'')
     \<and> natOfDigits s < 4294967295"

definition objectKeys :: "DynContact \<Rightarrow> string list" where
  "objectKeys obj =
     sort_key natOfDigits (filter isArrayIndex (map fst obj))
     @ filter (\<lambda>k. \<not> isArrayIndex k) (map fst obj)"

text \<open>A \<open>Set\<close> keeps its elements in insertion order; adding an element again changes
  nothing.\<close>

definition setAdd :: "string list \<Rightarrow> string \<Rightarrow> string list" where
  "setAdd xs x = (if x \<in> set xs then xs else xs @ [x])"

definition allFields :: "DynContact list \<Rightarrow> string list" where
  "allFields contacts = foldl (\<lambda>acc c. foldl setAdd acc (objectKeys c)) [] contacts"

text \<open>
  The comparator given to \<open>sort\<close>. \<open>localeCompare\<close> depends on the host's locale data, so it
  is a parameter \<open>lc\<close> of the model.
\<close>

definition fieldCompare :: "(string \<Rightarrow> string \<Rightarrow> int) \<Rightarrow> string \<Rightarrow> string \<Rightarrow> int" where
  "fieldCompare lc a b =
     (if a = ''First Name'' then -1
      else if b = ''First Name'' then 1
      else if a = ''Last Name'' then -1
      else if b = ''Last Name'' then 1
      else lc a b)"

text \<open>\<open>Array.prototype.sort\<close> is stable; with a consistent comparator its result is that of
  a stable insertion sort.\<close>

fun insertBy :: "('a \<Rightarrow> 'a \<Rightarrow> int) \<Rightarrow> 'a \<Rightarrow> 'a list \<Rightarrow> 'a list" where
  "insertBy cmp x [] = [x]"
| "insertBy cmp x (y # ys) = (if cmp x y \<le> 0 then x # y # ys else y # insertBy cmp x ys)"

definition sortBy :: "('a \<Rightarrow> 'a \<Rightarrow> int) \<Rightarrow> 'a list \<Rightarrow> 'a list" where
  "sortBy cmp xs = foldr (insertBy cmp) xs []"

definition sortedFields :: "(string \<Rightarrow> string \<Rightarrow> int) \<Rightarrow> DynContact list \<Rightarrow> string list" where
  "sortedFields lc contacts = sortBy (fieldCompare lc) (allFields contacts)"

text \<open>\<open>value.replace(/"/g, '""')\<close>.\<close>

definition escapeQuotes :: "string \<Rightarrow> string" where
  "escapeQuotes v = concat (map (\<lambda>c. if c = CHR ''\"'' then ''\"\"'' else [c]) v)"

text \<open>
  \<^verbatim>\<open>const value = contact[field] || '';
  const escapedValue = value.replace(/"/g, '""');
  return `"${escapedValue}"`;\<close>
  An own property gives its string, and a key the record does not have gives \<open>undefined\<close>,
  hence the empty string. But if the missing key names a member every object inherits, the
  read finds that member, which is not a string and has no \<open>replace\<close>: the call throws a
  \<open>TypeError\<close>.
\<close>

datatype error = TypeError

definition cell :: "DynContact \<Rightarrow> string \<Rightarrow> error + string" where
  "cell obj field =
     (case getProp obj field of
        Some v \<Rightarrow> Inr (''\"'' @ escapeQuotes v @ ''\"'')
      | None \<Rightarrow> if field \<in> set inheritedNames then Inl TypeError else Inr ''\"\"'')"

text \<open>The results of a list of steps, or the error of the first step that throws.\<close>

fun allOrError :: "(error + 'a) list \<Rightarrow> error + 'a list" where
  "allOrError [] = Inr []"
| "allOrError (x # xs) =
     (case x of
        Inl e \<Rightarrow> Inl e
      | Inr v \<Rightarrow> (case allOrError xs of Inl e \<Rightarrow> Inl e | Inr vs \<Rightarrow> Inr (v # vs)))"

text \<open>One row is the comma-joined cells of a record, one cell per column; the document is
  the header line and the rows, pushed in the order of the records and joined by line
  feeds. A cell that throws ends the whole call.\<close>

definition csvRow :: "string list \<Rightarrow> DynContact \<Rightarrow> error + string" where
  "csvRow cols obj =
     (case allOrError (map (cell obj) cols) of
        Inl e \<Rightarrow> Inl e
      | Inr row \<Rightarrow> Inr (join '','' row))"

definition convertToCSVDyn ::
  "(string \<Rightarrow> string \<Rightarrow> int) \<Rightarrow> DynContact list \<Rightarrow> error + string" where
  "convertToCSVDyn lc contacts =
     (let cols = sortedFields lc contacts
      in case allOrError (map (csvRow cols) contacts) of
           Inl e \<Rightarrow> Inl e
         | Inr rows \<Rightarrow> Inr (join [LF] (join '','' cols # rows)))"

section \<open>The specification's reading of name splitting\<close>

text \<open>
  The specification speaks of white-space-delimited tokens. \<open>specTokens\<close> are the maximal
  runs of characters that are not white space, and \<open>specParseName\<close> is name splitting as
  the specification words it: the first token, and the remaining tokens joined by single
  spaces.
\<close>

fun splitWhere :: "(char \<Rightarrow> bool) \<Rightarrow> string \<Rightarrow> string list" where
  "splitWhere P [] = [[]]"
| "splitWhere P (c # cs) =
     (if P c then [] # splitWhere P cs else consFirst c (splitWhere P cs))"

definition specTokens :: "string \<Rightarrow> string list" where
  "specTokens s = filter (\<lambda>t. t \<noteq> []) (splitWhere isWhiteSpace s)"

definition specParseName :: "string \<Rightarrow> string \<times> string" where
  "specParseName s =
     (case specTokens s of [] \<Rightarrow> ([], []) | t # ts \<Rightarrow> (t, join '' '' ts))"

section \<open>Counting the card-start markers\<close>

text \<open>The number of positions of a document at which the marker stands, in any
  letter-casing.\<close>

fun countMarkers :: "string \<Rightarrow> nat" where
  "countMarkers [] = 0"
| "countMarkers (c # cs) = (if matchesAt marker (c # cs) then 1 else 0) + countMarkers cs"

section \<open>The values a card contributes\<close>

text \<open>The phone and email values of a card's lines, line by line in the order of the card:
  what each line alone adds to the empty list.\<close>

definition collectedPhones :: "string \<Rightarrow> string list" where
  "collectedPhones vcardText =
     concat (map (\<lambda>line. phoneNumbers (lineStep initVars line)) (splitLines vcardText))"

definition collectedEmails :: "string \<Rightarrow> string list" where
  "collectedEmails vcardText =
     concat (map (\<lambda>line. emails (lineStep initVars line)) (splitLines vcardText))"

section \<open>The field spec of a line\<close>

text \<open>The specification's field spec: the part of the trimmed line before its first
  colon.\<close>

definition fieldSpec :: "string \<Rightarrow> string" where
  "fieldSpec line = takeWhile (\<lambda>c. c \<noteq> CHR '':'') (trim line)"

text \<open>A line without a value: its trimmed text has no colon, or nothing but white space
  after its first colon.\<close>

definition noValue :: "string \<Rightarrow> bool" where
  "noValue line \<longleftrightarrow>
     CHR '':'' \<notin> set (trim line)
     \<or> trim (drop 1 (dropWhile (\<lambda>c. c \<noteq> CHR '':'') (trim line))) = []"

section \<open>Lines stored under a counted label\<close>

text \<open>
  The label and the value of a line that dynamic-schema extraction stores through its repeat
  count: any line with a value, other than the markers, the version line, the full-name line
  and the structured-name line; an address line only if a component is left after dropping
  the blank ones. \<open>labelOf\<close> is the label alone.
\<close>

definition countedField :: "string \<Rightarrow> (string \<times> string) option" where
  "countedField line =
     (let trimmedLine = trim line in
      if trimmedLine = [] \<or> trimmedLine = ''BEGIN:VCARD'' \<or> trimmedLine = ''END:VCARD''
         \<or> startsWith trimmedLine ''VERSION:'' then None
      else
        (case indexOf trimmedLine (CHR '':'') of
           None \<Rightarrow> None
         | Some colonIndex \<Rightarrow>
            (let fieldPart = take colonIndex trimmedLine;
                 val = trim (drop (colonIndex + 1) trimmedLine);
                 addrParts = filter (\<lambda>part. trim part \<noteq> []) (splitChar (CHR '';'') val)
             in if val = [] \<or> fieldPart = ''FN'' \<or> fieldPart = ''N'' then None
                else if startsWith fieldPart ''ADR'' then
                  (if length addrParts > 0
                   then Some (normalizeFieldName fieldPart, join '', '' addrParts)
                   else None)
                else Some (normalizeFieldName fieldPart, val))))"

definition labelOf :: "string \<Rightarrow> string option" where
  "labelOf line = map_option fst (countedField line)"

section \<open>A comparison by code units\<close>

text \<open>One ordering \<open>localeCompare\<close> can be: the lexicographic order of the code units.\<close>

definition codeUnitCompare :: "string \<Rightarrow> string \<Rightarrow> int" where
  "codeUnitCompare a b = (if a < b then -1 else if a = b then 0 else 1)"

section \<open>Records without inherited names\<close>

text \<open>No key of the record is the name of a member every object inherits.\<close>

definition ownKeys :: "DynContact \<Rightarrow> bool" where
  "ownKeys obj \<longleftrightarrow> (\<forall>k\<in>fst ` set obj. k \<notin> set inheritedNames)"

section \<open>Facts about the string operations\<close>

lemma trim_Nil: "trim [] = []"
  by (simp add: trim_def)

lemma dropWhile_snoc_keep: "\<not> P x \<Longrightarrow> \<exists>ys. dropWhile P (zs @ [x]) = ys @ [x]"
  by (induction zs) auto

lemma trim_last: "trim s \<noteq> [] \<Longrightarrow> \<not> isWhiteSpace (last (trim s))"
  unfolding trim_def by (metis hd_dropWhile last_rev rev_is_Nil_conv)

lemma trim_hd:
  assumes "trim s \<noteq> []"
  shows "\<not> isWhiteSpace (hd (trim s))"
proof -
  let ?d = "dropWhile isWhiteSpace s"
  have d: "?d \<noteq> []"
  proof
    assume "?d = []"
    then have "trim s = []" by (simp only: trim_def rev.simps dropWhile.simps)
    with assms show False by simp
  qed
  then have h: "\<not> isWhiteSpace (hd ?d)" by (rule hd_dropWhile)
  obtain x xs where x: "?d = x # xs" using d by (cases ?d) auto
  obtain ys where "dropWhile isWhiteSpace (rev xs @ [x]) = ys @ [x]"
    using dropWhile_snoc_keep [of isWhiteSpace x "rev xs"] h x by auto
  then have "trim s = x # rev ys" by (simp add: trim_def x)
  then show ?thesis using h x by simp
qed

lemma dropWhile_id: "s \<noteq> [] \<Longrightarrow> \<not> P (hd s) \<Longrightarrow> dropWhile P s = s"
  by (cases s) auto

lemma trim_id:
  assumes "s \<noteq> []" "\<not> isWhiteSpace (hd s)" "\<not> isWhiteSpace (last s)"
  shows "trim s = s"
proof -
  have "dropWhile isWhiteSpace s = s" using assms by (simp add: dropWhile_id)
  moreover have "dropWhile isWhiteSpace (rev s) = rev s"
    using assms by (simp add: dropWhile_id hd_rev)
  ultimately show ?thesis by (simp add: trim_def)
qed

lemma trim_trim: "trim (trim s) = trim s"
  by (cases "trim s = []") (simp_all add: trim_Nil trim_id trim_hd trim_last)

lemma splitChar_nonempty: "splitChar sep s \<noteq> []"
  by (induction s) (auto, metis consFirst.elims list.distinct(1))

lemma join_consFirst: "xs \<noteq> [] \<Longrightarrow> join sep (consFirst c xs) = c # join sep xs"
  by (induction sep xs rule: join.induct) auto

lemma join_Cons: "join sep (x # xs) = (if xs = [] then x else x @ sep @ join sep xs)"
  by (cases xs) auto

lemma join_snoc: "xs \<noteq> [] \<Longrightarrow> join sep (xs @ [x]) = join sep xs @ sep @ x"
  by (induction sep xs rule: join.induct) auto

lemma join_splitChar: "join [sep] (splitChar sep s) = s"
  by (induction s) (auto simp: join_Cons splitChar_nonempty join_consFirst)

lemma hd_consFirst: "xs \<noteq> [] \<Longrightarrow> hd (consFirst c xs) = c # hd xs"
  by (cases xs) auto

lemma tl_consFirst: "xs \<noteq> [] \<Longrightarrow> tl (consFirst c xs) = tl xs"
  by (cases xs) auto

lemma hd_splitChar: "hd (splitChar sep s) = takeWhile (\<lambda>c. c \<noteq> sep) s"
  by (induction s) (auto simp: hd_consFirst splitChar_nonempty)

lemma tl_splitChar:
  "join [sep] (tl (splitChar sep s)) = drop 1 (dropWhile (\<lambda>c. c \<noteq> sep) s)"
  by (induction s) (auto simp: tl_consFirst splitChar_nonempty join_splitChar)

lemma splitWhere_no_sep: "\<forall>c\<in>set w. \<not> P c \<Longrightarrow> splitWhere P w = [w]"
  by (induction w) auto

lemma splitWhere_append_sep:
  "\<forall>c\<in>set w. \<not> P c \<Longrightarrow> P sep \<Longrightarrow> splitWhere P (w @ sep # s) = w # splitWhere P s"
  by (induction w) auto

lemma splitWhere_join:
  "ws \<noteq> [] \<Longrightarrow> \<forall>w\<in>set ws. \<forall>c\<in>set w. \<not> P c \<Longrightarrow> P sep
   \<Longrightarrow> splitWhere P (join [sep] ws) = ws"
  by (induction "[sep]" ws rule: join.induct)
     (auto simp: splitWhere_no_sep splitWhere_append_sep)

lemma splitChar_splitWhere: "splitChar sep s = splitWhere (\<lambda>c. c = sep) s"
  by (induction s) auto

lemma hd_join: "ws \<noteq> [] \<Longrightarrow> hd ws \<noteq> [] \<Longrightarrow> hd (join sep ws) = hd (hd ws)"
  by (cases ws) (auto simp: join_Cons)

lemma join_nonempty_last: "ws \<noteq> [] \<Longrightarrow> last ws \<noteq> [] \<Longrightarrow> join sep ws \<noteq> []"
  by (induction sep ws rule: join.induct) auto

lemma last_join: "ws \<noteq> [] \<Longrightarrow> last ws \<noteq> [] \<Longrightarrow> last (join sep ws) = last (last ws)"
proof (induction sep ws rule: join.induct)
  case (3 sep x y ys)
  then have "join sep (y # ys) \<noteq> []" by (intro join_nonempty_last) auto
  then show ?case using 3 by simp
qed auto

lemma join_nonempty: "ws \<noteq> [] \<Longrightarrow> hd ws \<noteq> [] \<Longrightarrow> join sep ws \<noteq> []"
  by (cases ws) (auto simp: join_Cons)

lemma foldl_snoc_map: "foldl (\<lambda>acc x. acc @ [f x]) acc xs = acc @ map f xs"
  by (induction xs arbitrary: acc) auto

section \<open>Name splitting\<close>

lemma parseName_first_space:
  "parseName s = (takeWhile (\<lambda>c. c \<noteq> CHR '' '') (trim s),
                  drop 1 (dropWhile (\<lambda>c. c \<noteq> CHR '' '') (trim s)))"
  using tl_splitChar [of "CHR '' ''" "trim s"] hd_splitChar [of "CHR '' ''" "trim s"]
  by (simp add: parseName_def nthOrEmpty_def splitChar_nonempty hd_conv_nth drop_Suc)

lemma tokens_trim:
  assumes "ws \<noteq> []" "\<forall>w\<in>set ws. w \<noteq> [] \<and> (\<forall>c\<in>set w. \<not> isWhiteSpace c)"
  shows "trim (join '' '' ws) = join '' '' ws"
proof -
  have h: "hd ws \<noteq> []" "last ws \<noteq> []" using assms by auto
  have "\<not> isWhiteSpace (hd (hd ws))" "\<not> isWhiteSpace (last (last ws))"
    using assms h by (metis hd_in_set last_in_set)+
  then show ?thesis
    using assms(1) h by (intro trim_id) (simp_all add: join_nonempty hd_join last_join)
qed

lemma parseName_tokens:
  assumes "ws \<noteq> []" "\<forall>w\<in>set ws. w \<noteq> [] \<and> (\<forall>c\<in>set w. \<not> isWhiteSpace c)"
  shows "parseName (join '' '' ws) = (hd ws, join '' '' (tl ws))"
proof -
  have sp: "isWhiteSpace (CHR '' '')" by (simp add: isWhiteSpace_def)
  have "\<forall>w\<in>set ws. \<forall>c\<in>set w. \<not> c = CHR '' ''" using assms(2) sp by blast
  then have "splitChar (CHR '' '') (join '' '' ws) = ws"
    unfolding splitChar_splitWhere using assms(1) by (intro splitWhere_join) auto
  then show ?thesis
    using tokens_trim [OF assms] assms(1)
    by (simp add: parseName_def nthOrEmpty_def hd_conv_nth drop_Suc)
qed

lemma specParseName_tokens:
  assumes "ws \<noteq> []" "\<forall>w\<in>set ws. w \<noteq> [] \<and> (\<forall>c\<in>set w. \<not> isWhiteSpace c)"
  shows "specParseName (join '' '' ws) = (hd ws, join '' '' (tl ws))"
proof -
  have sp: "isWhiteSpace (CHR '' '')" by (simp add: isWhiteSpace_def)
  have "splitWhere isWhiteSpace (join '' '' ws) = ws"
    using assms sp by (intro splitWhere_join) auto
  moreover have "filter (\<lambda>t. t \<noteq> []) ws = ws" using assms(2) by (simp add: filter_id_conv)
  ultimately show ?thesis using assms(1) by (cases ws) (simp_all add: specParseName_def specTokens_def)
qed

text \<open>
  C6, as the program has it. Name splitting trims the string and cuts it at its first space:
  the first name is the text before that space and the last name is all the text after it
  (empty when there is no space). So when the tokens of the name are separated by one space
  each, the first name is the first token and the last name is the remaining tokens joined by
  single spaces, as the specification's reading gives too; the empty string gives two empty
  strings, and \<open>Jane Mary Doe\<close> gives \<open>Jane\<close> and \<open>Mary Doe\<close>.
\<close>

theorem parseName_cuts_at_first_space:
  "parseName s = (takeWhile (\<lambda>c. c \<noteq> CHR '' '') (trim s),
                  drop 1 (dropWhile (\<lambda>c. c \<noteq> CHR '' '') (trim s)))
   \<and> parseName [] = ([], [])
   \<and> parseName ''Jane Mary Doe'' = (''Jane'', ''Mary Doe'')
   \<and> (ws \<noteq> [] \<and> (\<forall>w\<in>set ws. w \<noteq> [] \<and> (\<forall>c\<in>set w. \<not> isWhiteSpace c))
        \<longrightarrow> parseName (join '' '' ws) = (hd ws, join '' '' (tl ws))
            \<and> specParseName (join '' '' ws) = parseName (join '' '' ws))"
proof (intro conjI impI)
  show "parseName s = (takeWhile (\<lambda>c. c \<noteq> CHR '' '') (trim s),
                       drop 1 (dropWhile (\<lambda>c. c \<noteq> CHR '' '') (trim s)))"
    by (rule parseName_first_space)
  show "parseName [] = ([], [])"
    by (simp add: parseName_def trim_def nthOrEmpty_def)
  show "parseName ''Jane Mary Doe'' = (''Jane'', ''Mary Doe'')"
    by (simp add: parseName_def trim_def nthOrEmpty_def isWhiteSpace_def)
next
  assume a: "ws \<noteq> [] \<and> (\<forall>w\<in>set ws. w \<noteq> [] \<and> (\<forall>c\<in>set w. \<not> isWhiteSpace c))"
  then show "parseName (join '' '' ws) = (hd ws, join '' '' (tl ws))"
    by (simp add: parseName_tokens)
  from a show "specParseName (join '' '' ws) = parseName (join '' '' ws)"
    by (simp add: parseName_tokens specParseName_tokens)
qed

theorem parseName_cuts_at_first_space_witness:
  "parseName (join '' '' [''Ana'', ''de'', ''la'', ''Cruz'']) = (''Ana'', ''de la Cruz'')
   \<and> specParseName (join '' '' [''Ana'', ''de'', ''la'', ''Cruz'']) = (''Ana'', ''de la Cruz'')"
  using parseName_cuts_at_first_space [of "[]" "[''Ana'', ''de'', ''la'', ''Cruz'']"]
  by (simp add: isWhiteSpace_def)

text \<open>
  C6 as the specification states it fails where two tokens are separated by more than one
  space: the second space stays in the last name.
\<close>

theorem parseName_double_space_counterexample:
  "parseName ''Jane  Doe'' = (''Jane'', '' Doe'')
   \<and> specParseName ''Jane  Doe'' = (''Jane'', ''Doe'')
   \<and> parseName ''Jane  Doe'' \<noteq> specParseName ''Jane  Doe''"
  by (simp add: parseName_def specParseName_def specTokens_def trim_def nthOrEmpty_def
        isWhiteSpace_def)

section \<open>Serialisation\<close>

lemma convertToCSV_unfold:
  "convertToCSV cs = join [LF] (join '','' headers # map (\<lambda>c. join '','' (contactRow c)) cs)"
  by (simp add: convertToCSV_def foldl_snoc_map)

text \<open>
  C9. The fixed-schema serialiser gives, for no records, the header line alone: the nine
  labels First Name, Last Name, Phone 1 to 3, Email 1 to 3, Addresses, joined by commas.
  Each further record adds, after a line feed, one row: its nine fields in that order, each
  wrapped in double quotes with its text unchanged, joined by commas. The dynamic-schema
  serialiser gives the empty document for no records.
\<close>

theorem convertToCSV_fixed_rows:
  "convertToCSV [] =
     ''First Name,Last Name,Phone 1,Phone 2,Phone 3,Email 1,Email 2,Email 3,Addresses''
   \<and> convertToCSV (cs @ [c]) =
       convertToCSV cs @ [LF]
       @ ''\"'' @ firstName c @ ''\",\"'' @ lastName c
       @ ''\",\"'' @ phone1 c @ ''\",\"'' @ phone2 c @ ''\",\"'' @ phone3 c
       @ ''\",\"'' @ email1 c @ ''\",\"'' @ email2 c @ ''\",\"'' @ email3 c
       @ ''\",\"'' @ addresses c @ ''\"''
   \<and> convertToCSVDyn lc [] = Inr []"
proof (intro conjI)
  show "convertToCSV [] =
      ''First Name,Last Name,Phone 1,Phone 2,Phone 3,Email 1,Email 2,Email 3,Addresses''"
    by (simp add: convertToCSV_def headers_def)
  have "convertToCSV (cs @ [c]) = convertToCSV cs @ [LF] @ join '','' (contactRow c)"
    unfolding convertToCSV_unfold
    using join_snoc [of "join '','' headers # map (\<lambda>c. join '','' (contactRow c)) cs" "[LF]"]
    by simp
  then show "convertToCSV (cs @ [c]) =
       convertToCSV cs @ [LF]
       @ ''\"'' @ firstName c @ ''\",\"'' @ lastName c
       @ ''\",\"'' @ phone1 c @ ''\",\"'' @ phone2 c @ ''\",\"'' @ phone3 c
       @ ''\",\"'' @ email1 c @ ''\",\"'' @ email2 c @ ''\",\"'' @ email3 c
       @ ''\",\"'' @ addresses c @ ''\"''"
    by (simp add: contactRow_def quoted_def)
  show "convertToCSVDyn lc [] = Inr []"
    by (simp add: convertToCSVDyn_def sortedFields_def allFields_def sortBy_def)
qed

theorem convertToCSV_fixed_rows_witness:
  "convertToCSV
     [\<lparr>firstName = ''Al'', lastName = ''O\"Hara'', phone1 = ''111'', phone2 = [], phone3 = [],
       email1 = ''a@b.c'', email2 = [], email3 = [], addresses = ''1 Main St''\<rparr>] =
   ''First Name,Last Name,Phone 1,Phone 2,Phone 3,Email 1,Email 2,Email 3,Addresses''
   @ [LF] @ ''\"Al\",\"O\"Hara\",\"111\",\"\",\"\",\"a@b.c\",\"\",\"\",\"1 Main St\"''"
  using convertToCSV_fixed_rows
    [of "[]" "\<lparr>firstName = ''Al'', lastName = ''O\"Hara'', phone1 = ''111'', phone2 = [],
               phone3 = [], email1 = ''a@b.c'', email2 = [], email3 = [],
               addresses = ''1 Main St''\<rparr>" "\<lambda>a b. 0"]
  by simp

section \<open>Splitting a document into cards\<close>

lemma matchesAt_nth:
  "matchesAt p s \<longleftrightarrow> length p \<le> length s \<and> (\<forall>i<length p. canonicalize (s ! i) = canonicalize (p ! i))"
proof (induction p s rule: matchesAt.induct)
  case (3 p ps c cs)
  then show ?case by (auto simp: nth_Cons split: nat.splits)
qed auto

lemma marker_no_inner_B:
  "0 < k \<Longrightarrow> k < 11 \<Longrightarrow> canonicalize (marker ! k) \<noteq> canonicalize (marker ! 0)"
proof -
  assume "0 < k" "k < 11"
  then have "k = 1 \<or> k = 2 \<or> k = 3 \<or> k = 4 \<or> k = 5 \<or> k = 6 \<or> k = 7 \<or> k = 8
             \<or> k = 9 \<or> k = 10" by arith
  then show ?thesis by (elim disjE) (simp_all add: marker_def canonicalize_def)
qed

lemma marker_no_overlap:
  assumes "matchesAt marker s" "0 < k" "k < 11"
  shows "\<not> matchesAt marker (drop k s)"
proof
  assume m: "matchesAt marker (drop k s)"
  have len: "length marker = 11" by (simp add: marker_def)
  from assms(1) have a: "11 \<le> length s" "canonicalize (s ! k) = canonicalize (marker ! k)"
    using assms(3) len by (auto simp: matchesAt_nth)
  from m have "canonicalize (drop k s ! 0) = canonicalize (marker ! 0)"
    using len by (auto simp: matchesAt_nth)
  then have "canonicalize (s ! k) = canonicalize (marker ! 0)"
    using a(1) assms(3) by simp
  with a(2) marker_no_inner_B [OF assms(2,3)] show False by simp
qed

lemma countMarkers_skip:
  "n \<le> length u \<Longrightarrow> \<forall>k<n. \<not> matchesAt marker (drop k u) \<Longrightarrow> countMarkers u = countMarkers (drop n u)"
proof (induction n arbitrary: u)
  case 0
  then show ?case by simp
next
  case (Suc n)
  then obtain c cs where u: "u = c # cs" by (cases u) auto
  have "\<not> matchesAt marker (c # cs)" using Suc.prems(2) u by (metis drop0 zero_less_Suc)
  moreover have "\<forall>k<n. \<not> matchesAt marker (drop k cs)"
  proof (intro allI impI)
    fix k assume "k < n"
    then have "\<not> matchesAt marker (drop (Suc k) u)" using Suc.prems(2) by simp
    then show "\<not> matchesAt marker (drop k cs)" using u by simp
  qed
  then have "countMarkers cs = countMarkers (drop n cs)"
    using Suc.prems(1) u by (intro Suc.IH) auto
  ultimately show ?case using u by simp
qed

lemma countMarkers_at_match:
  assumes "matchesAt marker (c # cs)"
  shows "countMarkers (c # cs) = Suc (countMarkers (drop (length marker) (c # cs)))"
proof -
  have len: "length marker = 11" by (simp add: marker_def)
  have l: "10 \<le> length cs" using assms len by (auto simp: matchesAt_nth)
  have "\<forall>k<10. \<not> matchesAt marker (drop k cs)"
  proof (intro allI impI)
    fix k :: nat assume "k < 10"
    then show "\<not> matchesAt marker (drop k cs)"
      using marker_no_overlap [OF assms, of "Suc k"] by simp
  qed
  then have "countMarkers cs = countMarkers (drop 10 cs)"
    using l by (intro countMarkers_skip) auto
  then show ?thesis using assms len by simp
qed

lemma length_splitMarker: "length (splitMarker seg s) = Suc (countMarkers s)"
proof (induction seg s rule: splitMarker.induct)
  case (1 seg)
  then show ?case by simp
next
  case (2 seg c cs)
  show ?case
  proof (cases "matchesAt marker (c # cs)")
    case True
    then show ?thesis using 2(1) countMarkers_at_match [OF True] by simp
  next
    case False
    then show ?thesis using 2(2) by simp
  qed
qed

lemma splitMarker_seg: "drop 1 (splitMarker seg s) = drop 1 (splitMarker seg' s)"
proof (induction seg s arbitrary: seg' rule: splitMarker.induct)
  case (1 seg)
  then show ?case by simp
next
  case (2 seg c cs)
  show ?case
  proof (cases "matchesAt marker (c # cs)")
    case True
    then show ?thesis by simp
  next
    case False
    then show ?thesis using 2(2) [OF False, of "seg' @ [c]"] by simp
  qed
qed

lemma splitMarker_prefix:
  "\<forall>i<length pre. \<not> matchesAt marker (drop i (pre @ s))
   \<Longrightarrow> splitMarker seg (pre @ s) = splitMarker (seg @ pre) s"
proof (induction pre arbitrary: seg)
  case Nil
  then show ?case by simp
next
  case (Cons c pre)
  have "\<not> matchesAt marker (drop 0 ((c # pre) @ s))"
    using Cons.prems by (intro Cons.prems [rule_format]) simp
  then have no: "\<not> matchesAt marker (c # (pre @ s))" by simp
  have "\<forall>i<length pre. \<not> matchesAt marker (drop i (pre @ s))"
  proof (intro allI impI)
    fix i assume "i < length pre"
    then have "Suc i < length (c # pre)" by simp
    then have "\<not> matchesAt marker (drop (Suc i) ((c # pre) @ s))"
      by (rule Cons.prems [rule_format])
    moreover have "drop (Suc i) ((c # pre) @ s) = drop i (pre @ s)" by simp
    ultimately show "\<not> matchesAt marker (drop i (pre @ s))" by metis
  qed
  then have "splitMarker (seg @ [c]) (pre @ s) = splitMarker ((seg @ [c]) @ pre) s"
    by (rule Cons.IH)
  moreover have "splitMarker seg (c # (pre @ s)) = splitMarker (seg @ [c]) (pre @ s)"
    using no by (simp only: splitMarker.simps if_False)
  ultimately show ?case by simp
qed

lemma matchesAt_canon:
  "map canonicalize s = map canonicalize t \<Longrightarrow> matchesAt p s = matchesAt p t"
proof (induction p s arbitrary: t rule: matchesAt.induct)
  case (1 s)
  then show ?case by simp
next
  case (2 p ps)
  then have "t = []" by simp
  then show ?case by simp
next
  case (3 p ps c cs)
  then obtain d ds where t: "t = d # ds" by (cases t) auto
  with 3(2) have e: "canonicalize c = canonicalize d" "map canonicalize cs = map canonicalize ds"
    by simp_all
  have "matchesAt ps cs = matchesAt ps ds" using e(2) by (rule 3(1))
  then show ?case using e(1) t by simp
qed

lemma countMarkers_canon:
  "map canonicalize s = map canonicalize t \<Longrightarrow> countMarkers s = countMarkers t"
proof (induction s arbitrary: t)
  case Nil
  then show ?case by simp
next
  case (Cons c cs)
  then obtain d ds where t: "t = d # ds" by (cases t) auto
  have "matchesAt marker (c # cs) = matchesAt marker (d # ds)"
    using Cons.prems t by (intro matchesAt_canon) simp
  moreover have "countMarkers cs = countMarkers ds" using Cons t by simp
  ultimately show ?case using t by simp
qed

text \<open>
  C2. For every document, \<open>parseVCF\<close> (in both converters) returns as many records as there
  are positions where the marker \<open>BEGIN:VCARD\<close> stands in some letter-casing. Two
  documents that differ only in letter-casing give the same number of records; text in
  front of the first marker changes nothing; a document without a marker, the empty
  document among them, gives the empty list. The functions are total: there is no error
  result.
\<close>

theorem parseVCF_one_record_per_marker:
  "length (parseVCF s) = countMarkers s
   \<and> length (parseVCFDyn s) = countMarkers s
   \<and> (map canonicalize t = map canonicalize s \<longrightarrow> length (parseVCF t) = length (parseVCF s))
   \<and> ((\<forall>i<length pre. \<not> matchesAt marker (drop i (pre @ s)))
        \<longrightarrow> parseVCF (pre @ s) = parseVCF s \<and> parseVCFDyn (pre @ s) = parseVCFDyn s)
   \<and> (countMarkers s = 0 \<longrightarrow> parseVCF s = [] \<and> parseVCFDyn s = [])
   \<and> parseVCF [] = [] \<and> parseVCFDyn [] = []"
proof -
  have len: "length (parseVCF u) = countMarkers u" "length (parseVCFDyn u) = countMarkers u" for u
    by (simp_all add: parseVCF_def parseVCFDyn_def length_splitMarker)
  have pre: "drop 1 (splitMarker [] (pre @ s)) = drop 1 (splitMarker [] s)"
    if "\<forall>i<length pre. \<not> matchesAt marker (drop i (pre @ s))"
    using splitMarker_prefix [OF that, of "[]"] splitMarker_seg [of pre s "[]"] by simp
  show ?thesis
  proof (intro conjI impI)
    show "length (parseVCF s) = countMarkers s" by (rule len)
    show "length (parseVCFDyn s) = countMarkers s" by (rule len)
    show "length (parseVCF t) = length (parseVCF s)" if "map canonicalize t = map canonicalize s"
      using countMarkers_canon [OF that] by (simp add: len)
    show "parseVCF (pre @ s) = parseVCF s"
      if "\<forall>i<length pre. \<not> matchesAt marker (drop i (pre @ s))"
      using pre [OF that] by (simp add: parseVCF_def)
    show "parseVCFDyn (pre @ s) = parseVCFDyn s"
      if "\<forall>i<length pre. \<not> matchesAt marker (drop i (pre @ s))"
      using pre [OF that] by (simp add: parseVCFDyn_def)
    show "parseVCF s = []" if "countMarkers s = 0" using len(1) [of s] that by simp
    show "parseVCFDyn s = []" if "countMarkers s = 0" using len(2) [of s] that by simp
    show "parseVCF [] = []" by (simp add: parseVCF_def)
    show "parseVCFDyn [] = []" by (simp add: parseVCFDyn_def)
  qed
qed


theorem parseVCF_one_record_per_marker_witness:
  "length (parseVCF (''begin:vcard'' @ [LF] @ ''FN:A B'' @ [LF] @ ''Begin:VCard'' @ [LF] @ ''TEL:5'')) = 2
   \<and> length (parseVCF (''BEGIN:VCARD'' @ [LF] @ ''fn:a b'' @ [LF] @ ''BEGIN:VCARD'' @ [LF] @ ''tel:5''))
       = length (parseVCF (''begin:vcard'' @ [LF] @ ''FN:A B'' @ [LF] @ ''Begin:VCard'' @ [LF] @ ''TEL:5''))
   \<and> parseVCF (''junk'' @ ''begin:vcard'' @ [LF] @ ''FN:A B'' @ [LF] @ ''Begin:VCard'' @ [LF] @ ''TEL:5'')
       = parseVCF (''begin:vcard'' @ [LF] @ ''FN:A B'' @ [LF] @ ''Begin:VCard'' @ [LF] @ ''TEL:5'')
   \<and> parseVCF ''no cards here'' = []"
proof -
  let ?s = "''begin:vcard'' @ [LF] @ ''FN:A B'' @ [LF] @ ''Begin:VCard'' @ [LF] @ ''TEL:5''"
  let ?t = "''BEGIN:VCARD'' @ [LF] @ ''fn:a b'' @ [LF] @ ''BEGIN:VCARD'' @ [LF] @ ''tel:5''"
  have c: "countMarkers ?s = 2" by code_simp
  have m: "map canonicalize ?t = map canonicalize ?s" by code_simp
  have p: "\<forall>i<length ''junk''. \<not> matchesAt marker (drop i (''junk'' @ ?s))"
    by code_simp
  have z: "countMarkers ''no cards here'' = 0" by code_simp
  note T = parseVCF_one_record_per_marker [of ?s ?t "''junk''"]
  note U = parseVCF_one_record_per_marker [of "''no cards here''" "[]" "[]"]
  from T have "length (parseVCF ?s) = countMarkers ?s" by blast
  then have e1: "length (parseVCF ?s) = 2" using c by (rule trans)
  from T m have e2: "length (parseVCF ?t) = length (parseVCF ?s)" by blast
  from T p have e3: "parseVCF (''junk'' @ ?s) = parseVCF ?s" by blast
  from U z have e4: "parseVCF ''no cards here'' = []" by blast
  from e1 e2 e3 e4 show ?thesis by blast
qed

section \<open>Fixed-schema extraction\<close>

lemma lineStep_phones_append:
  "phoneNumbers (lineStep st line) = phoneNumbers st @ phoneNumbers (lineStep initVars line)"
  by (simp add: lineStep_def initVars_def Let_def split: option.splits)

lemma lineStep_emails_append:
  "emails (lineStep st line) = emails st @ emails (lineStep initVars line)"
  by (simp add: lineStep_def initVars_def Let_def split: option.splits)

lemma foldl_phones:
  "phoneNumbers (foldl lineStep st ls) =
     phoneNumbers st @ concat (map (\<lambda>line. phoneNumbers (lineStep initVars line)) ls)"
proof (induction ls arbitrary: st)
  case Nil
  then show ?case by simp
next
  case (Cons l ls)
  show ?case using Cons [of "lineStep st l"] lineStep_phones_append [of st l] by simp
qed

lemma foldl_emails:
  "emails (foldl lineStep st ls) =
     emails st @ concat (map (\<lambda>line. emails (lineStep initVars line)) ls)"
proof (induction ls arbitrary: st)
  case Nil
  then show ?case by simp
next
  case (Cons l ls)
  show ?case using Cons [of "lineStep st l"] lineStep_emails_append [of st l] by simp
qed

lemma nthOrEmpty_take: "i < n \<Longrightarrow> nthOrEmpty (take n xs) i = nthOrEmpty xs i"
  by (simp add: nthOrEmpty_def)

lemma buildContact_take:
  "buildContact (st\<lparr>phoneNumbers := take 3 (phoneNumbers st), emails := take 3 (emails st)\<rparr>)
   = buildContact st"
  by (simp add: buildContact_def nthOrEmpty_take split: prod.splits)

text \<open>
  C5. In fixed-schema extraction the slots phone-1 to phone-3 hold the first, second and
  third phone value of the card's lines in line order, and email-1 to email-3 the first three
  email values, an empty string standing for a value that does not exist. The record is the
  one built from the first three values of each list alone, so a fourth or later value
  reaches no field of it.
\<close>

theorem fixed_first_three_phones_emails:
  "phone1 (parseVCard b) = nthOrEmpty (collectedPhones b) 0
   \<and> phone2 (parseVCard b) = nthOrEmpty (collectedPhones b) 1
   \<and> phone3 (parseVCard b) = nthOrEmpty (collectedPhones b) 2
   \<and> email1 (parseVCard b) = nthOrEmpty (collectedEmails b) 0
   \<and> email2 (parseVCard b) = nthOrEmpty (collectedEmails b) 1
   \<and> email3 (parseVCard b) = nthOrEmpty (collectedEmails b) 2
   \<and> parseVCard b =
       buildContact ((foldl lineStep initVars (splitLines b))
         \<lparr>phoneNumbers := take 3 (collectedPhones b), emails := take 3 (collectedEmails b)\<rparr>)"
proof -
  let ?st = "foldl lineStep initVars (splitLines b)"
  have p: "phoneNumbers ?st = collectedPhones b"
    by (simp add: foldl_phones collectedPhones_def initVars_def)
  have e: "emails ?st = collectedEmails b"
    by (simp add: foldl_emails collectedEmails_def initVars_def)
  have "parseVCard b = buildContact (?st\<lparr>phoneNumbers := take 3 (phoneNumbers ?st),
                                              emails := take 3 (emails ?st)\<rparr>)"
    by (simp only: buildContact_take parseVCard_def)
  then show ?thesis using p e
    by (simp add: parseVCard_def buildContact_def split: prod.splits)
qed

theorem fixed_first_three_phones_emails_witness:
  "collectedPhones (join [LF] [''BEGIN:VCARD'', ''TEL:111'', ''EMAIL:a@x.org'',
       ''TEL;TYPE=CELL:222'', ''TEL:333'', ''TEL:444'', ''END:VCARD''])
     = [''111'', ''222'', ''333'', ''444'']
   \<and> parseVCard (join [LF] [''BEGIN:VCARD'', ''TEL:111'', ''EMAIL:a@x.org'',
       ''TEL;TYPE=CELL:222'', ''TEL:333'', ''TEL:444'', ''END:VCARD''])
     = \<lparr>firstName = [], lastName = [], phone1 = ''111'', phone2 = ''222'', phone3 = ''333'',
        email1 = ''a@x.org'', email2 = [], email3 = [], addresses = []\<rparr>"
proof -
  let ?b = "join [LF] [''BEGIN:VCARD'', ''TEL:111'', ''EMAIL:a@x.org'',
       ''TEL;TYPE=CELL:222'', ''TEL:333'', ''TEL:444'', ''END:VCARD'']"
  have p: "collectedPhones ?b = [''111'', ''222'', ''333'', ''444'']" by code_simp
  have e: "collectedEmails ?b = [''a@x.org'']" by code_simp
  have f: "foldl lineStep initVars (splitLines ?b) =
     \<lparr>fullName = [], phoneNumbers = [''111'', ''222'', ''333'', ''444''], emails = [''a@x.org''], addressList = []\<rparr>"
    by code_simp
  have "parseVCard ?b = buildContact ((foldl lineStep initVars (splitLines ?b))
         \<lparr>phoneNumbers := take 3 (collectedPhones ?b), emails := take 3 (collectedEmails ?b)\<rparr>)"
    using fixed_first_three_phones_emails [of ?b] by blast
  also have "\<dots> = \<lparr>firstName = [], lastName = [], phone1 = ''111'', phone2 = ''222'', phone3 = ''333'',
        email1 = ''a@x.org'', email2 = [], email3 = [], addresses = []\<rparr>"
    unfolding p e f by code_simp
  finally show ?thesis using p by blast
qed

text \<open>The lines of a card have no line terminator in them.\<close>

lemma consFirst_no_terminator:
  "\<not> isLineTerminator c \<Longrightarrow> \<forall>l\<in>set xs. \<forall>x\<in>set l. \<not> isLineTerminator x
   \<Longrightarrow> \<forall>l\<in>set (consFirst c xs). \<forall>x\<in>set l. \<not> isLineTerminator x"
  by (cases xs) auto

lemma splitLines_no_terminator:
  "\<forall>l\<in>set (splitLines b). \<forall>x\<in>set l. \<not> isLineTerminator x"
proof (induction b rule: splitLines.induct)
  case 1
  then show ?case by simp
next
  case (2 c)
  then show ?case by (simp add: isLineTerminator_def CR_def LF_def)
next
  case (3 c d cs)
  show ?case
  proof (cases "c = CR \<and> d = LF")
    case True
    then show ?thesis using 3(1) by simp
  next
    case False
    show ?thesis
    proof (cases "c = CR \<or> c = LF")
      case True
      then show ?thesis using False 3(2) by auto
    next
      case nt: False
      then have "\<not> isLineTerminator c" by (simp add: isLineTerminator_def CR_def LF_def)
      then have "\<forall>l\<in>set (consFirst c (splitLines (d # cs))). \<forall>x\<in>set l. \<not> isLineTerminator x"
        using 3(3) [OF False nt] by (rule consFirst_no_terminator)
      then show ?thesis using False nt by simp
    qed
  qed
qed

lemma dropWhile_to_colon:
  "CHR '':'' \<notin> set a \<Longrightarrow> dropWhile (\<lambda>x. x \<noteq> CHR '':'') (a @ CHR '':'' # v) = CHR '':'' # v"
  by (induction a) auto

lemma takeWhile_no_terminator:
  "\<forall>c\<in>set v. \<not> isLineTerminator c \<Longrightarrow> takeWhile (\<lambda>x. \<not> isLineTerminator x) v = v"
  by (simp add: takeWhile_eq_all_conv)

lemma startsWith_split: "startsWith s p \<Longrightarrow> s = p @ drop (length p) s"
  by (metis append_take_drop_id startsWith_def)

lemma startsWith_append: "startsWith (p @ s) p"
  by (simp add: startsWith_def)

lemma includesStr_startsWith: "startsWith s p \<Longrightarrow> includesStr s p"
  by (cases s) (auto simp: startsWith_def)

lemma matchAfter_at_start:
  assumes "kw \<noteq> []" "CHR '':'' \<notin> set p" "v \<noteq> []" "\<forall>c\<in>set v. \<not> isLineTerminator c"
  shows "matchAfter kw (kw @ p @ CHR '':'' # v) = Some v"
proof -
  obtain k ks where kw: "kw = k # ks" using assms(1) by (cases kw) auto
  have d: "dropWhile (\<lambda>x. x \<noteq> CHR '':'') (drop (length kw) (kw @ p @ CHR '':'' # v)) = CHR '':'' # v"
    using assms(2) by (simp add: dropWhile_to_colon)
  have s: "startsWith (kw @ p @ CHR '':'' # v) kw" by (rule startsWith_append)
  have tw: "takeWhile (\<lambda>x. \<not> isLineTerminator x) v = v"
    using assms(4) by (rule takeWhile_no_terminator)
  have "matchAfter kw (k # (ks @ p @ CHR '':'' # v)) = Some v"
    using d s tw assms(3) unfolding kw
    by (simp only: matchAfter.simps append_Cons if_True list.case if_True simp_thms)
  then show ?thesis by (simp add: kw)
qed

lemma typed_line_shape:
  assumes "trim line = spec @ '':'' @ v" "spec = kw \<or> startsWith spec (kw @ '';'')"
    "CHR '':'' \<notin> set spec"
  shows "\<exists>p. trim line = kw @ p @ CHR '':'' # v \<and> CHR '':'' \<notin> set p
             \<and> (p = [] \<or> startsWith (trim line) (kw @ '';''))"
  using assms(2)
proof
  assume "spec = kw"
  then show ?thesis using assms(1) by (intro exI [of _ "[]"]) simp
next
  assume a: "startsWith spec (kw @ '';'')"
  then have sp: "spec = (kw @ '';'') @ drop (length (kw @ '';'')) spec" by (rule startsWith_split)
  let ?q = "drop (length (kw @ '';'')) spec"
  have "CHR '':'' \<notin> set ?q" using assms(3) by (meson in_set_dropD)
  moreover have "trim line = kw @ ('';'' @ ?q) @ CHR '':'' # v"
    using assms(1) sp by (metis append.assoc append_Cons append_Nil)
  moreover have "startsWith (trim line) (kw @ '';'')"
    using assms(1) sp by (metis append.assoc startsWith_append)
  ultimately show ?thesis by (intro exI [of _ "'';'' @ ?q"]) simp
qed

lemma phone_line_appends:
  assumes "trim line = spec @ '':'' @ v" "CHR '':'' \<notin> set spec"
    "spec = ''TEL'' \<or> startsWith spec ''TEL;''"
    "v \<noteq> []" "\<forall>c\<in>set v. \<not> isLineTerminator c"
  shows "lineStep st line = st\<lparr>phoneNumbers := phoneNumbers st @ [trim v]\<rparr>"
proof -
  obtain p where t: "trim line = ''TEL'' @ p @ CHR '':'' # v" and cp: "CHR '':'' \<notin> set p"
    and sh: "p = [] \<or> startsWith (trim line) (''TEL'' @ '';'')"
    using typed_line_shape [OF assms(1) _ assms(2), of "''TEL''"] assms(3) by auto
  have m: "matchAfter ''TEL'' (trim line) = Some v"
    unfolding t using cp assms(4,5) by (intro matchAfter_at_start) simp_all
  have fn: "\<not> startsWith (trim line) ''FN:''" by (simp add: t startsWith_def)
  have "startsWith (trim line) ''TEL:'' \<or> includesStr (trim line) ''TEL;''"
    using sh
  proof
    assume "p = []" then show ?thesis by (simp add: t startsWith_def)
  next
    assume "startsWith (trim line) (''TEL'' @ '';'')"
    then show ?thesis using includesStr_startsWith by simp
  qed
  then show ?thesis using m fn by (simp add: lineStep_def Let_def)
qed

lemma email_line_appends:
  assumes "trim line = spec @ '':'' @ v" "CHR '':'' \<notin> set spec"
    "spec = ''EMAIL'' \<or> startsWith spec ''EMAIL;''"
    "v \<noteq> []" "\<forall>c\<in>set v. \<not> isLineTerminator c"
    "\<not> includesStr (trim line) ''TEL;''"
  shows "lineStep st line = st\<lparr>emails := emails st @ [trim v]\<rparr>"
proof -
  obtain p where t: "trim line = ''EMAIL'' @ p @ CHR '':'' # v" and cp: "CHR '':'' \<notin> set p"
    and sh: "p = [] \<or> startsWith (trim line) (''EMAIL'' @ '';'')"
    using typed_line_shape [OF assms(1) _ assms(2), of "''EMAIL''"] assms(3) by auto
  have m: "matchAfter ''EMAIL'' (trim line) = Some v"
    unfolding t using cp assms(4,5) by (intro matchAfter_at_start) simp_all
  have fn: "\<not> startsWith (trim line) ''FN:''" "\<not> startsWith (trim line) ''TEL:''"
    by (simp_all add: t startsWith_def)
  have "startsWith (trim line) ''EMAIL:'' \<or> includesStr (trim line) ''EMAIL;''"
    using sh
  proof
    assume "p = []" then show ?thesis by (simp add: t startsWith_def)
  next
    assume "startsWith (trim line) (''EMAIL'' @ '';'')"
    then show ?thesis using includesStr_startsWith by simp
  qed
  then show ?thesis using m fn assms(6) by (simp add: lineStep_def Let_def)
qed

lemma phones_change_iff:
  "phoneNumbers (lineStep st line) \<noteq> phoneNumbers st \<longleftrightarrow>
     \<not> startsWith (trim line) ''FN:''
     \<and> (startsWith (trim line) ''TEL:'' \<or> includesStr (trim line) ''TEL;'')
     \<and> matchAfter ''TEL'' (trim line) \<noteq> None"
  by (auto simp: lineStep_def Let_def split: option.splits)

lemma emails_change_iff:
  "emails (lineStep st line) \<noteq> emails st \<longleftrightarrow>
     \<not> startsWith (trim line) ''FN:''
     \<and> \<not> (startsWith (trim line) ''TEL:'' \<or> includesStr (trim line) ''TEL;'')
     \<and> (startsWith (trim line) ''EMAIL:'' \<or> includesStr (trim line) ''EMAIL;'')
     \<and> matchAfter ''EMAIL'' (trim line) \<noteq> None"
  by (auto simp: lineStep_def Let_def split: option.splits)

lemma phones_appended:
  "phoneNumbers (lineStep st line) \<noteq> phoneNumbers st \<longrightarrow>
     (\<exists>m. matchAfter ''TEL'' (trim line) = Some m
          \<and> phoneNumbers (lineStep st line) = phoneNumbers st @ [trim m])"
  by (auto simp: lineStep_def Let_def split: option.splits)

lemma emails_appended:
  "emails (lineStep st line) \<noteq> emails st \<longrightarrow>
     (\<exists>m. matchAfter ''EMAIL'' (trim line) = Some m
          \<and> emails (lineStep st line) = emails st @ [trim m])"
  by (auto simp: lineStep_def Let_def split: option.splits)

text \<open>
  C7, as the program has it, for a line whose value has no line terminator in it (as the
  lines of a card have none). If the field spec of the line is \<open>TEL\<close> or starts with \<open>TEL;\<close>,
  and its value is not empty, the line appends the text after its first colon, trimmed, to
  the phone list and changes nothing else. If the field spec is \<open>EMAIL\<close> or starts with
  \<open>EMAIL;\<close>, the value is not empty and the trimmed line does not contain \<open>TEL;\<close>, the line
  appends the text after its first colon, trimmed, to the email list and changes nothing
  else. Other lines append too. The phone list grows exactly when the trimmed line does not
  start with \<open>FN:\<close>, starts with \<open>TEL:\<close> or contains \<open>TEL;\<close> anywhere, and the pattern
  \<open>TEL[^:]*:(.+)\<close> matches in it. The email list grows exactly when the trimmed line does
  not start with \<open>FN:\<close>, neither starts with \<open>TEL:\<close> nor contains \<open>TEL;\<close>, starts with
  \<open>EMAIL:\<close> or contains \<open>EMAIL;\<close> anywhere, and the pattern \<open>EMAIL[^:]*:(.+)\<close> matches in
  it. A list that grows grows by one value: the text the pattern captures, trimmed.
\<close>

theorem fixed_phone_email_lines:
  "(trim line = spec @ '':'' @ v \<and> CHR '':'' \<notin> set spec
      \<and> (spec = ''TEL'' \<or> startsWith spec ''TEL;'')
      \<and> v \<noteq> [] \<and> (\<forall>c\<in>set v. \<not> isLineTerminator c)
     \<longrightarrow> lineStep st line = st\<lparr>phoneNumbers := phoneNumbers st @ [trim v]\<rparr>)
   \<and> (trim line = spec @ '':'' @ v \<and> CHR '':'' \<notin> set spec
      \<and> (spec = ''EMAIL'' \<or> startsWith spec ''EMAIL;'')
      \<and> v \<noteq> [] \<and> (\<forall>c\<in>set v. \<not> isLineTerminator c)
      \<and> \<not> includesStr (trim line) ''TEL;''
     \<longrightarrow> lineStep st line = st\<lparr>emails := emails st @ [trim v]\<rparr>)
   \<and> (phoneNumbers (lineStep st line) \<noteq> phoneNumbers st \<longleftrightarrow>
        \<not> startsWith (trim line) ''FN:''
        \<and> (startsWith (trim line) ''TEL:'' \<or> includesStr (trim line) ''TEL;'')
        \<and> matchAfter ''TEL'' (trim line) \<noteq> None)
   \<and> (emails (lineStep st line) \<noteq> emails st \<longleftrightarrow>
        \<not> startsWith (trim line) ''FN:''
        \<and> \<not> (startsWith (trim line) ''TEL:'' \<or> includesStr (trim line) ''TEL;'')
        \<and> (startsWith (trim line) ''EMAIL:'' \<or> includesStr (trim line) ''EMAIL;'')
        \<and> matchAfter ''EMAIL'' (trim line) \<noteq> None)
   \<and> (phoneNumbers (lineStep st line) \<noteq> phoneNumbers st \<longrightarrow>
        (\<exists>m. matchAfter ''TEL'' (trim line) = Some m
             \<and> phoneNumbers (lineStep st line) = phoneNumbers st @ [trim m]))
   \<and> (emails (lineStep st line) \<noteq> emails st \<longrightarrow>
        (\<exists>m. matchAfter ''EMAIL'' (trim line) = Some m
             \<and> emails (lineStep st line) = emails st @ [trim m]))"
  using phone_line_appends [of line spec v st] email_line_appends [of line spec v st]
    phones_change_iff [of st line] emails_change_iff [of st line]
    phones_appended [of st line] emails_appended [of st line]
  by blast

theorem fixed_phone_email_lines_witness:
  "lineStep initVars '' TEL;TYPE=CELL: 555 0199 '' = initVars\<lparr>phoneNumbers := [''555 0199'']\<rparr>
   \<and> lineStep initVars ''EMAIL:ana@example.org'' = initVars\<lparr>emails := [''ana@example.org'']\<rparr>"
proof -
  have a: "trim '' TEL;TYPE=CELL: 555 0199 '' = ''TEL;TYPE=CELL'' @ '':'' @ '' 555 0199''
      \<and> CHR '':'' \<notin> set ''TEL;TYPE=CELL''
      \<and> (''TEL;TYPE=CELL'' = ''TEL'' \<or> startsWith ''TEL;TYPE=CELL'' ''TEL;'')
      \<and> '' 555 0199'' \<noteq> [] \<and> (\<forall>c\<in>set '' 555 0199''. \<not> isLineTerminator c)"
    by code_simp
  have b: "trim ''EMAIL:ana@example.org'' = ''EMAIL'' @ '':'' @ ''ana@example.org''
      \<and> CHR '':'' \<notin> set ''EMAIL''
      \<and> (''EMAIL'' = ''EMAIL'' \<or> startsWith ''EMAIL'' ''EMAIL;'')
      \<and> ''ana@example.org'' \<noteq> [] \<and> (\<forall>c\<in>set ''ana@example.org''. \<not> isLineTerminator c)
      \<and> \<not> includesStr (trim ''EMAIL:ana@example.org'') ''TEL;''"
    by code_simp
  have c: "trim '' 555 0199'' = ''555 0199''" "trim ''ana@example.org'' = ''ana@example.org''"
          "phoneNumbers initVars = []" "emails initVars = []"
    by code_simp+
  from a fixed_phone_email_lines
         [of "'' TEL;TYPE=CELL: 555 0199 ''" "''TEL;TYPE=CELL''" "'' 555 0199''" initVars]
  have "lineStep initVars '' TEL;TYPE=CELL: 555 0199 ''
        = initVars\<lparr>phoneNumbers := phoneNumbers initVars @ [trim '' 555 0199'']\<rparr>"
    by blast
  moreover from b fixed_phone_email_lines
         [of "''EMAIL:ana@example.org''" "''EMAIL''" "''ana@example.org''" initVars]
  have "lineStep initVars ''EMAIL:ana@example.org''
        = initVars\<lparr>emails := emails initVars @ [trim ''ana@example.org'']\<rparr>"
    by blast
  ultimately show ?thesis unfolding c by simp
qed

text \<open>
  C7 as the specification states it fails in both directions: a line with a group prefix
  and a note that mentions \<open>TEL;\<close> add a phone value although their field specs do not
  start with \<open>TEL\<close> (the note's value is not even the text after its first colon), and a
  \<open>TELEX\<close> line adds none although its field spec starts with \<open>TEL\<close>.
\<close>

theorem fixed_phone_lines_counterexample:
  "phoneNumbers (lineStep initVars ''item1.TEL;TYPE=CELL:555'') = [''555'']
   \<and> \<not> startsWith (fieldSpec ''item1.TEL;TYPE=CELL:555'') ''TEL''
   \<and> phoneNumbers (lineStep initVars ''NOTE:fax TEL;x:y'') = [''y'']
   \<and> \<not> startsWith (fieldSpec ''NOTE:fax TEL;x:y'') ''TEL''
   \<and> phoneNumbers (lineStep initVars ''TELEX:123'') = []
   \<and> startsWith (fieldSpec ''TELEX:123'') ''TEL''"
  by code_simp

section \<open>Lines without a value\<close>

lemma trim_empty_iff: "trim u = [] \<longleftrightarrow> (\<forall>c\<in>set u. isWhiteSpace c)"
proof
  assume "trim u = []"
  then have "dropWhile isWhiteSpace (rev (dropWhile isWhiteSpace u)) = []"
    by (simp add: trim_def)
  then have "\<forall>c\<in>set (dropWhile isWhiteSpace u). isWhiteSpace c"
    by (simp add: dropWhile_eq_Nil_conv)
  then have "dropWhile isWhiteSpace u = []"
    by (metis hd_dropWhile hd_in_set)
  then show "\<forall>c\<in>set u. isWhiteSpace c" by (simp add: dropWhile_eq_Nil_conv)
next
  assume "\<forall>c\<in>set u. isWhiteSpace c"
  then have "dropWhile isWhiteSpace u = []" by (simp add: dropWhile_eq_Nil_conv)
  then show "trim u = []" by (simp only: trim_def rev.simps dropWhile.simps)
qed

lemma trimmed_suffix_empty:
  assumes "trim (drop n (trim l)) = []"
  shows "drop n (trim l) = []"
proof (rule ccontr)
  assume ne: "drop n (trim l) \<noteq> []"
  then have "trim l \<noteq> []" by auto
  then have "\<not> isWhiteSpace (last (trim l))" by (rule trim_last)
  moreover have "last (drop n (trim l)) = last (trim l)" using ne by (simp add: last_drop)
  moreover have "last (drop n (trim l)) \<in> set (drop n (trim l))" using ne by (rule last_in_set)
  ultimately show False using assms by (metis trim_empty_iff)
qed

lemma value_suffix:
  "drop 1 (dropWhile (\<lambda>x. x \<noteq> c) t) = drop (Suc (length (takeWhile (\<lambda>x. x \<noteq> c) t))) t"
  by (metis One_nat_def drop_drop dropWhile_eq_drop plus_1_eq_Suc)

lemma no_value_tail: 
  "drop 1 (dropWhile (\<lambda>x. x \<noteq> CHR '':'') (c # cs)) = []
   \<Longrightarrow> drop 1 (dropWhile (\<lambda>x. x \<noteq> CHR '':'') cs) = []"
  by (cases "c = CHR '':''") auto

lemma no_value_drop:
  "drop 1 (dropWhile (\<lambda>x. x \<noteq> CHR '':'') t) = []
   \<Longrightarrow> drop 1 (dropWhile (\<lambda>x. x \<noteq> CHR '':'') (drop n t)) = []"
proof (induction n arbitrary: t)
  case 0
  then show ?case by simp
next
  case (Suc n)
  show ?case
  proof (cases t)
    case Nil
    then show ?thesis by simp
  next
    case (Cons c cs)
    then have "drop 1 (dropWhile (\<lambda>x. x \<noteq> CHR '':'') cs) = []"
      using Suc.prems no_value_tail by blast
    then show ?thesis using Suc.IH Cons by simp
  qed
qed

lemma matchAfter_no_value:
  "drop 1 (dropWhile (\<lambda>x. x \<noteq> CHR '':'') t) = [] \<Longrightarrow> matchAfter kw t = None"
proof (induction t)
  case Nil
  then show ?case by simp
next
  case (Cons c cs)
  have tl: "matchAfter kw cs = None" using Cons no_value_tail by blast
  have "drop 1 (dropWhile (\<lambda>x. x \<noteq> CHR '':'') (drop (length kw) (c # cs))) = []"
    using Cons.prems by (rule no_value_drop)
  then have "dropWhile (\<lambda>x. x \<noteq> CHR '':'') (drop (length kw) (c # cs)) = []
             \<or> (\<exists>x. dropWhile (\<lambda>x. x \<noteq> CHR '':'') (drop (length kw) (c # cs)) = [x])"
    by (cases "dropWhile (\<lambda>x. x \<noteq> CHR '':'') (drop (length kw) (c # cs))") simp_all
  then show ?case using tl by (auto simp only: matchAfter.simps list.case takeWhile.simps simp_thms if_False split: if_splits)
qed

lemma indexOf_None: "indexOf s c = None \<longleftrightarrow> c \<notin> set s"
  by (induction s) auto

lemma indexOf_Some:
  "indexOf s c = Some i \<Longrightarrow> i = length (takeWhile (\<lambda>x. x \<noteq> c) s) \<and> c \<in> set s"
  by (induction s arbitrary: i) (auto split: if_splits)

lemma indexOf_parts:
  assumes "indexOf s c = Some i"
  shows "take i s = takeWhile (\<lambda>x. x \<noteq> c) s"
    and "drop (i + 1) s = drop 1 (dropWhile (\<lambda>x. x \<noteq> c) s)"
proof -
  have i: "i = length (takeWhile (\<lambda>x. x \<noteq> c) s)" using indexOf_Some [OF assms] by blast
  show "take i s = takeWhile (\<lambda>x. x \<noteq> c) s"
    unfolding i by (rule takeWhile_eq_take [symmetric])
  show "drop (i + 1) s = drop 1 (dropWhile (\<lambda>x. x \<noteq> c) s)"
    unfolding i value_suffix by simp
qed

lemma noValue_empty_tail:
  assumes "noValue line"
  shows "drop 1 (dropWhile (\<lambda>c. c \<noteq> CHR '':'') (trim line)) = []"
  using assms unfolding noValue_def
proof
  assume "CHR '':'' \<notin> set (trim line)"
  then have "\<forall>c\<in>set (trim line). c \<noteq> CHR '':''" by blast
  then have "dropWhile (\<lambda>c. c \<noteq> CHR '':'') (trim line) = []"
    by (simp only: dropWhile_eq_Nil_conv)
  then show ?thesis by (simp only: drop.simps)
next
  assume "trim (drop 1 (dropWhile (\<lambda>c. c \<noteq> CHR '':'') (trim line))) = []"
  then show ?thesis unfolding value_suffix by (rule trimmed_suffix_empty)
qed

lemma lineStepDyn_noValue:
  assumes "noValue line"
  shows "lineStepDyn st line = st"
proof (cases "indexOf (trim line) (CHR '':'')")
  case None
  then show ?thesis by (simp add: lineStepDyn_def Let_def)
next
  case (Some i)
  have "drop (i + 1) (trim line) = []"
    using indexOf_parts(2) [OF Some] noValue_empty_tail [OF assms] by simp
  then have "trim (drop (i + 1) (trim line)) = []" by (simp only: trim_Nil)
  then show ?thesis using Some by (simp add: lineStepDyn_def Let_def)
qed

lemma lineStep_noValue:
  assumes "noValue line"
  shows "lineStep st line = (if trim line = ''FN:'' then st\<lparr>fullName := []\<rparr> else st)"
proof -
  have e: "drop 1 (dropWhile (\<lambda>c. c \<noteq> CHR '':'') (trim line)) = []"
    using assms by (rule noValue_empty_tail)
  then have m: "matchAfter kw (trim line) = None" for kw by (rule matchAfter_no_value)
  show ?thesis
  proof (cases "startsWith (trim line) ''FN:''")
    case True
    then obtain r where t: "trim line = ''FN:'' @ r"
      using startsWith_split [of "trim line" "''FN:''"] by blast
    have "r = []" using e unfolding t by simp
    then show ?thesis using True t by (simp add: lineStep_def)
  next
    case False
    then have "trim line \<noteq> ''FN:''" by (auto simp: startsWith_def)
    then show ?thesis using False m by (simp add: lineStep_def Let_def)
  qed
qed


text \<open>
  C8, as the program has it. A line whose trimmed text has no colon, or whose value after the
  first colon is empty after trimming, leaves the state of dynamic-schema extraction as it
  was. It leaves the state of fixed-schema extraction as it was too, with one exception: the
  line \<open>FN:\<close> sets the captured full name to the empty string.
\<close>

theorem line_without_value_is_skipped:
  "noValue line \<longrightarrow>
     lineStepDyn dst line = dst
     \<and> lineStep st line = (if trim line = ''FN:'' then st\<lparr>fullName := []\<rparr> else st)"
  using lineStepDyn_noValue [of line dst] lineStep_noValue [of line st] by blast

theorem line_without_value_is_skipped_witness:
  "lineStepDyn (lineStepDyn initDynVars ''FN:Jane Doe'') ''FN:  ''
     = lineStepDyn initDynVars ''FN:Jane Doe''
   \<and> lineStep (lineStep initVars ''TEL:111'') '' TEL;TYPE=CELL:  '' = lineStep initVars ''TEL:111''
   \<and> lineStep (lineStep initVars ''FN:Jane Doe'') ''X-NO-COLON'' = lineStep initVars ''FN:Jane Doe''"
proof -
  have n: "noValue ''FN:  ''" "noValue '' TEL;TYPE=CELL:  ''" "noValue ''X-NO-COLON''"
    by code_simp+
  have t: "trim '' TEL;TYPE=CELL:  '' \<noteq> ''FN:''" "trim ''X-NO-COLON'' \<noteq> ''FN:''"
    by code_simp+
  show ?thesis
    using line_without_value_is_skipped
            [of "''FN:  ''" "lineStepDyn initDynVars ''FN:Jane Doe''" initVars]
      line_without_value_is_skipped
            [of "'' TEL;TYPE=CELL:  ''" initDynVars "lineStep initVars ''TEL:111''"]
      line_without_value_is_skipped
            [of "''X-NO-COLON''" initDynVars "lineStep initVars ''FN:Jane Doe''"]
      n t
    by (simp only: simp_thms if_False)
qed

text \<open>
  C8 as the specification states it fails in fixed-schema extraction: an \<open>FN\<close> line with an
  empty value erases the full name an earlier \<open>FN\<close> line gave.
\<close>

theorem fixed_empty_full_name_counterexample:
  "noValue ''FN:''
   \<and> fullName (lineStep initVars ''FN:Jane Doe'') = ''Jane Doe''
   \<and> fullName (lineStep (lineStep initVars ''FN:Jane Doe'') ''FN:'') = []
   \<and> firstName (parseVCard (join [LF] [''BEGIN:VCARD'', ''FN:Jane Doe'', ''END:VCARD''])) = ''Jane''
   \<and> firstName (parseVCard (join [LF] [''BEGIN:VCARD'', ''FN:Jane Doe'', ''FN:'', ''END:VCARD''])) = []"
  by code_simp

section \<open>Dynamic-schema extraction: the name keys\<close>

lemma getProp_setProp:
  "getProp (setProp k v obj) k' = (if k' = k then Some v else getProp obj k')"
  by (induction obj) (auto simp: getProp_def)

lemma unset_setProp_other: "k' \<noteq> k \<Longrightarrow> unset (setProp k v obj) k' = unset obj k'"
  by (simp add: unset_def getProp_setProp)

lemma lineStepDyn_FN:
  assumes "trim line = ''FN:'' @ w" "trim w \<noteq> []"
  shows "lineStepDyn st line =
           st\<lparr>contact := setProp ''Last Name'' (snd (parseName (trim w)))
                             (setProp ''First Name'' (fst (parseName (trim w))) (contact st))\<rparr>"
  using assms(2)
  by (simp add: lineStepDyn_def assms(1) startsWith_def Let_def split: prod.splits)

lemma lineStepDyn_N:
  assumes "trim line = ''N:'' @ w" "trim w \<noteq> []"
  shows "lineStepDyn st line =
     (let nameParts = splitChar (CHR '';'') (trim w);
          c1 = (if nthOrEmpty nameParts 1 \<noteq> [] \<and> unset (contact st) ''First Name''
                then setProp ''First Name'' (nthOrEmpty nameParts 1) (contact st)
                else contact st);
          c2 = (if nthOrEmpty nameParts 0 \<noteq> [] \<and> unset c1 ''Last Name''
                then setProp ''Last Name'' (nthOrEmpty nameParts 0) c1
                else c1)
      in st\<lparr>contact := c2\<rparr>)"
  using assms(2)
  by (simp add: lineStepDyn_def assms(1) startsWith_def Let_def)

text \<open>
  C1, as the program has it. In dynamic-schema extraction a full-name line (\<open>FN\<close>) with a
  value always stores the two halves of its value under First Name and Last Name, whatever
  stood there before, from a structured-name line (\<open>N\<close>) or from an earlier full-name line.
  A structured-name line leaves a name key alone that already holds a non-empty value.
  So a full-name line wins wherever it stands: before the structured-name line it is kept,
  after it it overwrites. Neither line touches the repeat counts.
\<close>

theorem dyn_full_name_overwrites:
  "(trim line = ''FN:'' @ w \<and> trim w \<noteq> [] \<longrightarrow>
      getProp (contact (lineStepDyn st line)) ''First Name'' = Some (fst (parseName (trim w)))
      \<and> getProp (contact (lineStepDyn st line)) ''Last Name'' = Some (snd (parseName (trim w)))
      \<and> fieldCounts (lineStepDyn st line) = fieldCounts st)
   \<and> (trim line = ''N:'' @ w \<and> trim w \<noteq> [] \<longrightarrow>
      (\<not> unset (contact st) ''First Name'' \<longrightarrow>
         getProp (contact (lineStepDyn st line)) ''First Name'' = getProp (contact st) ''First Name'')
      \<and> (\<not> unset (contact st) ''Last Name'' \<longrightarrow>
         getProp (contact (lineStepDyn st line)) ''Last Name'' = getProp (contact st) ''Last Name'')
      \<and> fieldCounts (lineStepDyn st line) = fieldCounts st)"
proof (intro conjI impI; elim conjE)
  assume a: "trim line = ''FN:'' @ w" "trim w \<noteq> []"
  show "getProp (contact (lineStepDyn st line)) ''First Name'' = Some (fst (parseName (trim w)))"
    "getProp (contact (lineStepDyn st line)) ''Last Name'' = Some (snd (parseName (trim w)))"
    "fieldCounts (lineStepDyn st line) = fieldCounts st"
    by (simp_all add: lineStepDyn_FN [OF a] getProp_setProp)
next
  assume a: "trim line = ''N:'' @ w" "trim w \<noteq> []"
  show "getProp (contact (lineStepDyn st line)) ''First Name'' = getProp (contact st) ''First Name''"
    if "\<not> unset (contact st) ''First Name''"
    using that by (simp add: lineStepDyn_N [OF a] Let_def getProp_setProp)
  show "getProp (contact (lineStepDyn st line)) ''Last Name'' = getProp (contact st) ''Last Name''"
    if "\<not> unset (contact st) ''Last Name''"
    using that by (simp add: lineStepDyn_N [OF a] Let_def getProp_setProp unset_setProp_other)
  show "fieldCounts (lineStepDyn st line) = fieldCounts st"
    by (simp add: lineStepDyn_N [OF a] Let_def)
qed

theorem dyn_full_name_overwrites_witness:
  "getProp (contact (lineStepDyn (lineStepDyn initDynVars ''N:Doe;John'') ''FN:Jane Smith''))
      ''First Name'' = Some ''Jane''
   \<and> getProp (contact (lineStepDyn (lineStepDyn initDynVars ''FN:Jane Smith'') ''N:Doe;John''))
      ''First Name'' = Some ''Jane''"
proof -
  have a: "trim ''FN:Jane Smith'' = ''FN:'' @ ''Jane Smith'' \<and> trim ''Jane Smith'' \<noteq> []"
    by code_simp
  have b: "trim ''N:Doe;John'' = ''N:'' @ ''Doe;John'' \<and> trim ''Doe;John'' \<noteq> []"
    by code_simp
  have c: "\<not> unset (contact (lineStepDyn initDynVars ''FN:Jane Smith'')) ''First Name''"
    by code_simp
  have d: "fst (parseName (trim ''Jane Smith'')) = ''Jane''"
    "getProp (contact (lineStepDyn initDynVars ''FN:Jane Smith'')) ''First Name'' = Some ''Jane''"
    by code_simp+
  from a dyn_full_name_overwrites
         [of "''FN:Jane Smith''" "''Jane Smith''" "lineStepDyn initDynVars ''N:Doe;John''"]
  have "getProp (contact (lineStepDyn (lineStepDyn initDynVars ''N:Doe;John'') ''FN:Jane Smith''))
          ''First Name'' = Some (fst (parseName (trim ''Jane Smith'')))"
    by blast
  moreover from b c dyn_full_name_overwrites
         [of "''N:Doe;John''" "''Doe;John''" "lineStepDyn initDynVars ''FN:Jane Smith''"]
  have "getProp (contact (lineStepDyn (lineStepDyn initDynVars ''FN:Jane Smith'') ''N:Doe;John''))
          ''First Name'' = getProp (contact (lineStepDyn initDynVars ''FN:Jane Smith'')) ''First Name''"
    by blast
  ultimately show ?thesis unfolding d by blast
qed

text \<open>
  C1 as the specification states it fails: a full-name line after a structured-name line
  replaces both names the structured-name line gave.
\<close>

theorem dyn_later_full_name_counterexample:
  "getProp (parseVCardDyn (join [LF] [''BEGIN:VCARD'', ''N:Doe;John'', ''END:VCARD'']))
      ''First Name'' = Some ''John''
   \<and> getProp (parseVCardDyn (join [LF] [''BEGIN:VCARD'', ''N:Doe;John'', ''END:VCARD'']))
      ''Last Name'' = Some ''Doe''
   \<and> getProp (parseVCardDyn
        (join [LF] [''BEGIN:VCARD'', ''N:Doe;John'', ''FN:Jane Smith'', ''END:VCARD'']))
      ''First Name'' = Some ''Jane''
   \<and> getProp (parseVCardDyn
        (join [LF] [''BEGIN:VCARD'', ''N:Doe;John'', ''FN:Jane Smith'', ''END:VCARD'']))
      ''Last Name'' = Some ''Smith''"
  by code_simp

text \<open>
  C10. A structured-name line takes a name key for absent when the key is missing or holds
  the empty string: then a non-empty second component becomes First Name and a non-empty
  first component becomes Last Name. A full-name line whose value is a single token leaves
  such an empty Last Name behind.
\<close>

theorem dyn_structured_name_fills_empty:
  "(trim line = ''N:'' @ w \<and> trim w \<noteq> [] \<longrightarrow>
      (nthOrEmpty (splitChar (CHR '';'') (trim w)) 1 \<noteq> [] \<and> unset (contact st) ''First Name''
         \<longrightarrow> getProp (contact (lineStepDyn st line)) ''First Name''
               = Some (nthOrEmpty (splitChar (CHR '';'') (trim w)) 1))
      \<and> (nthOrEmpty (splitChar (CHR '';'') (trim w)) 0 \<noteq> [] \<and> unset (contact st) ''Last Name''
         \<longrightarrow> getProp (contact (lineStepDyn st line)) ''Last Name''
               = Some (nthOrEmpty (splitChar (CHR '';'') (trim w)) 0)))
   \<and> (trim line = ''FN:'' @ w \<and> trim w \<noteq> [] \<and> CHR '' '' \<notin> set (trim w) \<longrightarrow>
        getProp (contact (lineStepDyn st line)) ''Last Name'' = Some []
        \<and> unset (contact (lineStepDyn st line)) ''Last Name'')"
proof (intro conjI impI; elim conjE)
  assume a: "trim line = ''N:'' @ w" "trim w \<noteq> []"
  show "getProp (contact (lineStepDyn st line)) ''First Name''
          = Some (nthOrEmpty (splitChar (CHR '';'') (trim w)) 1)"
    if "nthOrEmpty (splitChar (CHR '';'') (trim w)) 1 \<noteq> []" "unset (contact st) ''First Name''"
    using that by (simp add: lineStepDyn_N [OF a] Let_def getProp_setProp)
  show "getProp (contact (lineStepDyn st line)) ''Last Name''
          = Some (nthOrEmpty (splitChar (CHR '';'') (trim w)) 0)"
    if "nthOrEmpty (splitChar (CHR '';'') (trim w)) 0 \<noteq> []" "unset (contact st) ''Last Name''"
    using that by (simp add: lineStepDyn_N [OF a] Let_def getProp_setProp unset_setProp_other)
next
  assume a: "trim line = ''FN:'' @ w" "trim w \<noteq> []" and b: "CHR '' '' \<notin> set (trim w)"
  have "dropWhile (\<lambda>c. c \<noteq> CHR '' '') (trim w) = []"
    using b by (auto simp: dropWhile_eq_Nil_conv)
  then have "drop 1 (dropWhile (\<lambda>c. c \<noteq> CHR '' '') (trim (trim w))) = []"
    by (simp only: trim_trim drop.simps)
  then have "snd (parseName (trim w)) = []"
    by (simp only: parseName_first_space snd_conv)
  then show "getProp (contact (lineStepDyn st line)) ''Last Name'' = Some []"
    "unset (contact (lineStepDyn st line)) ''Last Name''"
    by (simp_all add: lineStepDyn_FN [OF a] getProp_setProp unset_def)
qed


theorem dyn_structured_name_fills_empty_witness:
  "getProp (contact (lineStepDyn initDynVars ''FN:Cher'')) ''Last Name'' = Some []
   \<and> getProp (contact (lineStepDyn (lineStepDyn initDynVars ''FN:Cher'') ''N:Sarkisian;Cherilyn''))
       ''Last Name'' = Some ''Sarkisian''
   \<and> getProp (contact (lineStepDyn initDynVars ''N:Sarkisian;Cherilyn''))
       ''First Name'' = Some ''Cherilyn''"
proof -
  have a: "trim ''FN:Cher'' = ''FN:'' @ ''Cher'' \<and> trim ''Cher'' \<noteq> []
           \<and> CHR '' '' \<notin> set (trim ''Cher'')"
    by code_simp
  have b: "trim ''N:Sarkisian;Cherilyn'' = ''N:'' @ ''Sarkisian;Cherilyn''
           \<and> trim ''Sarkisian;Cherilyn'' \<noteq> []"
    by code_simp
  have c: "nthOrEmpty (splitChar (CHR '';'') (trim ''Sarkisian;Cherilyn'')) 0 = ''Sarkisian''"
    "nthOrEmpty (splitChar (CHR '';'') (trim ''Sarkisian;Cherilyn'')) 1 = ''Cherilyn''"
    by code_simp+
  have u: "unset (contact initDynVars) ''First Name''" by code_simp
  from a dyn_structured_name_fills_empty [of "''FN:Cher''" "''Cher''" initDynVars]
  have 1: "getProp (contact (lineStepDyn initDynVars ''FN:Cher'')) ''Last Name'' = Some []"
    and 2: "unset (contact (lineStepDyn initDynVars ''FN:Cher'')) ''Last Name''"
    by blast+
  from b 2 dyn_structured_name_fills_empty
         [of "''N:Sarkisian;Cherilyn''" "''Sarkisian;Cherilyn''" "lineStepDyn initDynVars ''FN:Cher''"]
  have 3: "getProp (contact (lineStepDyn (lineStepDyn initDynVars ''FN:Cher'') ''N:Sarkisian;Cherilyn''))
       ''Last Name'' = Some ''Sarkisian''"
    unfolding c by simp
  from b u dyn_structured_name_fills_empty
         [of "''N:Sarkisian;Cherilyn''" "''Sarkisian;Cherilyn''" initDynVars]
  have 4: "getProp (contact (lineStepDyn initDynVars ''N:Sarkisian;Cherilyn''))
       ''First Name'' = Some ''Cherilyn''"
    unfolding c by simp
  from 1 3 4 show ?thesis by blast
qed

section \<open>Dynamic-schema extraction: repeated labels\<close>

lemma lineStepDyn_counted:
  "countedField line = Some (L, v) \<Longrightarrow> lineStepDyn st line = storeCounted L v st"
  by (auto simp: countedField_def lineStepDyn_def Let_def split: if_splits option.splits)

lemma lineStepDyn_uncounted:
  "countedField line = None \<Longrightarrow> fieldCounts (lineStepDyn st line) = fieldCounts st"
  by (auto simp: countedField_def lineStepDyn_def Let_def split: if_splits option.splits prod.splits)

lemma countOf_storeCounted:
  "countOf (fieldCounts (storeCounted L v st)) K
     = countOf (fieldCounts st) K + (if K = L then 1 else 0)"
  by (simp add: storeCounted_def countOf_def Let_def)

lemma countOf_step:
  "countOf (fieldCounts (lineStepDyn st line)) K
     = countOf (fieldCounts st) K + (if labelOf line = Some K then 1 else 0)"
proof (cases "countedField line")
  case None
  then show ?thesis by (simp add: lineStepDyn_uncounted labelOf_def)
next
  case (Some a)
  obtain L v where a: "a = (L, v)" by (cases a)
  show ?thesis using Some unfolding a
    by (auto simp: lineStepDyn_counted countOf_storeCounted labelOf_def)
qed

lemma countOf_foldl:
  "countOf (fieldCounts (foldl lineStepDyn st ls)) K
     = countOf (fieldCounts st) K + length (filter (\<lambda>l. labelOf l = Some K) ls)"
  by (induction ls arbitrary: st) (simp_all add: countOf_step)

text \<open>
  C4. In dynamic-schema extraction, take a card whose lines have neither U+00B5 nor U+00FF in
  their field specs (there the labels of the model are those of the program). Let a line
  be stored under the label \<open>L\<close>, and let it be the \<open>n\<close>-th line of its card stored under
  \<open>L\<close>. If \<open>n\<close> is 1 its value is assigned to the key \<open>L\<close>; otherwise to the key made of
  \<open>L\<close>, a space and \<open>n\<close> in decimal. The count of \<open>L\<close> becomes \<open>n\<close>. Two untyped \<open>TEL\<close>
  lines with the values 111 and 222 give the keys Phone and Phone 2.
\<close>

theorem dyn_repeat_disambiguation:
  "((\<forall>l\<in>set (line # pre). caseMapped (fieldSpec l)) \<and> countedField line = Some (L, v) \<longrightarrow>
      (let st = foldl lineStepDyn initDynVars pre;
           n = Suc (length (filter (\<lambda>l. labelOf l = Some L) pre))
       in lineStepDyn st line =
            \<lparr>contact = setProp (if n = 1 then L else L @ '' '' @ showNat n) v (contact st),
             fieldCounts = (fieldCounts st)(L \<mapsto> n)\<rparr>))
   \<and> countedField ''TEL:111'' = Some (''Phone'', ''111'')
   \<and> countedField ''TEL:222'' = Some (''Phone'', ''222'')
   \<and> parseVCardDyn (join [LF] [''BEGIN:VCARD'', ''TEL:111'', ''TEL:222'', ''END:VCARD''])
       = [(''Phone'', ''111''), (''Phone 2'', ''222''), (''First Name'', []), (''Last Name'', [])]"
proof (intro conjI impI)
  assume "(\<forall>l\<in>set (line # pre). caseMapped (fieldSpec l)) \<and> countedField line = Some (L, v)"
  then have a: "countedField line = Some (L, v)" by blast
  let ?st = "foldl lineStepDyn initDynVars pre"
  have "countOf (fieldCounts initDynVars) L = 0" by (simp add: initDynVars_def countOf_def)
  then have "countOf (fieldCounts ?st) L = length (filter (\<lambda>l. labelOf l = Some L) pre)"
    by (simp add: countOf_foldl)
  then show "let st = foldl lineStepDyn initDynVars pre;
           n = Suc (length (filter (\<lambda>l. labelOf l = Some L) pre))
       in lineStepDyn st line =
            \<lparr>contact = setProp (if n = 1 then L else L @ '' '' @ showNat n) v (contact st),
             fieldCounts = (fieldCounts st)(L \<mapsto> n)\<rparr>"
    by (simp add: lineStepDyn_counted [OF a] storeCounted_def Let_def)
next
  show "countedField ''TEL:111'' = Some (''Phone'', ''111'')" by code_simp
  show "countedField ''TEL:222'' = Some (''Phone'', ''222'')" by code_simp
  show "parseVCardDyn (join [LF] [''BEGIN:VCARD'', ''TEL:111'', ''TEL:222'', ''END:VCARD''])
       = [(''Phone'', ''111''), (''Phone 2'', ''222''), (''First Name'', []), (''Last Name'', [])]"
    by code_simp
qed

text \<open>The witness has two typed phone lines whose type differs in letter-casing only, with
  a letter outside ASCII: both get the label Phone M\<open>U+00F3\<close>vil, and the second the key
  numbered 2. It also has a third untyped phone line.\<close>

theorem dyn_repeat_disambiguation_witness:
  "contact (lineStepDyn
      (foldl lineStepDyn initDynVars
         [''BEGIN:VCARD'', ''TEL;TYPE=M'' @ [CHR 0xD3] @ ''VIL:111'', ''ORG:Acme''])
      (''TEL;TYPE=m'' @ [CHR 0xF3] @ ''vil:222''))
    = [(''Phone M'' @ [CHR 0xF3] @ ''vil'', ''111''), (''Organization'', ''Acme''),
       (''Phone M'' @ [CHR 0xF3] @ ''vil 2'', ''222'')]
   \<and> contact (lineStepDyn
      (foldl lineStepDyn initDynVars [''BEGIN:VCARD'', ''TEL:111'', ''ORG:Acme'', ''TEL:222''])
      ''TEL:333'')
    = [(''Phone'', ''111''), (''Organization'', ''Acme''), (''Phone 2'', ''222''), (''Phone 3'', ''333'')]"
proof -
  let ?l1 = "''TEL;TYPE=m'' @ [CHR 0xF3] @ ''vil:222''"
  let ?L1 = "''Phone M'' @ [CHR 0xF3] @ ''vil''"
  let ?pre1 = "[''BEGIN:VCARD'', ''TEL;TYPE=M'' @ [CHR 0xD3] @ ''VIL:111'', ''ORG:Acme'']"
  let ?pre = "[''BEGIN:VCARD'', ''TEL:111'', ''ORG:Acme'', ''TEL:222'']"
  have a: "(\<forall>l\<in>set (?l1 # ?pre1). caseMapped (fieldSpec l))
           \<and> countedField ?l1 = Some (?L1, ''222'')"
    and b: "(\<forall>l\<in>set (''TEL:333'' # ?pre). caseMapped (fieldSpec l))
           \<and> countedField ''TEL:333'' = Some (''Phone'', ''333'')"
    by code_simp+
  have n: "Suc (length (filter (\<lambda>l. labelOf l = Some ?L1) ?pre1)) = 2"
    "Suc (length (filter (\<lambda>l. labelOf l = Some ''Phone'') ?pre)) = 3"
    by code_simp+
  have c: "contact (foldl lineStepDyn initDynVars ?pre1)
           = [(?L1, ''111''), (''Organization'', ''Acme'')]"
    "contact (foldl lineStepDyn initDynVars ?pre)
           = [(''Phone'', ''111''), (''Organization'', ''Acme''), (''Phone 2'', ''222'')]"
    by code_simp+
  have s: "showNat 2 = ''2''" "showNat 3 = ''3''" by code_simp+
  from a dyn_repeat_disambiguation [of ?l1 ?pre1 ?L1 "''222''"]
  have "contact (lineStepDyn (foldl lineStepDyn initDynVars ?pre1) ?l1)
        = setProp (?L1 @ '' '' @ showNat 2) ''222'' (contact (foldl lineStepDyn initDynVars ?pre1))"
    unfolding Let_def n by simp
  moreover
  from b dyn_repeat_disambiguation [of "''TEL:333''" ?pre "''Phone''" "''333''"]
  have "contact (lineStepDyn (foldl lineStepDyn initDynVars ?pre) ''TEL:333'')
        = setProp (''Phone'' @ '' '' @ showNat 3) ''333'' (contact (foldl lineStepDyn initDynVars ?pre))"
    unfolding Let_def n by simp
  ultimately show ?thesis unfolding c s by simp
qed

section \<open>Dynamic-schema serialisation\<close>

lemma set_objectKeys: "set (objectKeys obj) = fst ` set obj"
  by (auto simp: objectKeys_def)

lemma set_foldl_setAdd: "set (foldl setAdd acc xs) = set acc \<union> set xs"
  by (induction xs arbitrary: acc) (auto simp: setAdd_def)

lemma distinct_foldl_setAdd: "distinct acc \<Longrightarrow> distinct (foldl setAdd acc xs)"
  by (induction xs arbitrary: acc) (auto simp: setAdd_def)

lemma set_fields_from:
  "set (foldl (\<lambda>acc c. foldl setAdd acc (objectKeys c)) acc cs)
     = set acc \<union> (\<Union>obj\<in>set cs. fst ` set obj)"
  by (induction cs arbitrary: acc) (auto simp: set_foldl_setAdd set_objectKeys)

lemma distinct_fields_from:
  "distinct acc \<Longrightarrow> distinct (foldl (\<lambda>acc c. foldl setAdd acc (objectKeys c)) acc cs)"
  by (induction cs arbitrary: acc) (auto simp: distinct_foldl_setAdd)

lemma set_allFields: "set (allFields cs) = (\<Union>obj\<in>set cs. fst ` set obj)"
  by (simp add: allFields_def set_fields_from)

lemma distinct_allFields: "distinct (allFields cs)"
  by (simp add: allFields_def distinct_fields_from)

lemma set_insertBy: "set (insertBy cmp x ys) = insert x (set ys)"
  by (induction ys) auto

lemma set_sortBy: "set (sortBy cmp xs) = set xs"
  by (induction xs) (auto simp: sortBy_def set_insertBy)

lemma distinct_insertBy: "distinct (insertBy cmp x ys) \<longleftrightarrow> x \<notin> set ys \<and> distinct ys"
  by (induction ys) (auto simp: set_insertBy)

lemma distinct_sortBy: "distinct (sortBy cmp xs) \<longleftrightarrow> distinct xs"
  by (induction xs) (auto simp: sortBy_def distinct_insertBy set_sortBy [unfolded sortBy_def])

lemma sorted_insertBy:
  assumes total: "\<forall>a b. cmp a b \<le> 0 \<or> cmp b a \<le> 0"
    and trans: "\<forall>a b c. cmp a b \<le> 0 \<and> cmp b c \<le> 0 \<longrightarrow> cmp a c \<le> 0"
  shows "sorted_wrt (\<lambda>a b. cmp a b \<le> 0) ys
         \<Longrightarrow> sorted_wrt (\<lambda>a b. cmp a b \<le> 0) (insertBy cmp x ys)"
proof (induction ys)
  case Nil
  then show ?case by simp
next
  case (Cons y ys)
  from Cons.prems have yz: "\<forall>z\<in>set ys. cmp y z \<le> 0"
    and s: "sorted_wrt (\<lambda>a b. cmp a b \<le> 0) ys"
    by simp_all
  show ?case
  proof (cases "cmp x y \<le> 0")
    case True
    have "\<forall>z\<in>set ys. cmp x z \<le> 0"
    proof
      fix z assume "z \<in> set ys"
      then have "cmp y z \<le> 0" using yz by blast
      with True show "cmp x z \<le> 0" using trans by blast
    qed
    then show ?thesis using True yz s by simp
  next
    case False
    then have yx: "cmp y x \<le> 0" using total by blast
    have "sorted_wrt (\<lambda>a b. cmp a b \<le> 0) (insertBy cmp x ys)" using s by (rule Cons.IH)
    then show ?thesis using False yx yz by (simp add: set_insertBy)
  qed
qed

lemma sorted_sortBy:
  assumes "\<forall>a b. cmp a b \<le> 0 \<or> cmp b a \<le> 0"
    and "\<forall>a b c. cmp a b \<le> 0 \<and> cmp b c \<le> 0 \<longrightarrow> cmp a c \<le> 0"
  shows "sorted_wrt (\<lambda>a b. cmp a b \<le> 0) (sortBy cmp xs)"
  by (induction xs) (simp_all add: sortBy_def sorted_insertBy [OF assms])

lemma fieldCompare_total:
  assumes "\<forall>a b. lc a b \<le> 0 \<or> lc b a \<le> 0"
  shows "\<forall>a b. fieldCompare lc a b \<le> 0 \<or> fieldCompare lc b a \<le> 0"
proof (intro allI)
  fix a b
  consider "a = ''First Name''" | "a \<noteq> ''First Name''" "b = ''First Name''"
    | "a \<noteq> ''First Name''" "b \<noteq> ''First Name''" "a = ''Last Name''"
    | "a \<noteq> ''First Name''" "b \<noteq> ''First Name''" "a \<noteq> ''Last Name''" "b = ''Last Name''"
    | "a \<noteq> ''First Name''" "b \<noteq> ''First Name''" "a \<noteq> ''Last Name''" "b \<noteq> ''Last Name''"
    by blast
  then show "fieldCompare lc a b \<le> 0 \<or> fieldCompare lc b a \<le> 0"
  proof cases
    case 1 then show ?thesis by (simp add: fieldCompare_def)
  next
    case 2 then show ?thesis by (simp add: fieldCompare_def)
  next
    case 3 then show ?thesis by (simp add: fieldCompare_def)
  next
    case 4 then show ?thesis by (simp add: fieldCompare_def)
  next
    case 5
    then have "fieldCompare lc a b = lc a b" "fieldCompare lc b a = lc b a"
      by (simp_all add: fieldCompare_def)
    then show ?thesis using assms by simp
  qed
qed

lemma fieldCompare_le_cases:
  "fieldCompare lc a b \<le> 0 \<longleftrightarrow>
     a = ''First Name''
     \<or> (b \<noteq> ''First Name'' \<and> (a = ''Last Name''
          \<or> (b \<noteq> ''Last Name'' \<and> lc a b \<le> 0)))"
  by (simp add: fieldCompare_def)

lemma fieldCompare_trans:
  assumes "\<forall>a b c. lc a b \<le> 0 \<and> lc b c \<le> 0 \<longrightarrow> lc a c \<le> 0"
  shows "\<forall>a b c. fieldCompare lc a b \<le> 0 \<and> fieldCompare lc b c \<le> 0
                   \<longrightarrow> fieldCompare lc a c \<le> 0"
  unfolding fieldCompare_le_cases using assms by blast


lemma first_name_first:
  assumes "sorted_wrt (\<lambda>a b. fieldCompare lc a b \<le> 0) ks" "''First Name'' \<in> set ks"
  shows "ks ! 0 = ''First Name''"
proof (cases ks)
  case Nil
  then show ?thesis using assms(2) by simp
next
  case (Cons x xs)
  show ?thesis
  proof (rule ccontr)
    assume "ks ! 0 \<noteq> ''First Name''"
    then have x: "x \<noteq> ''First Name''" using Cons by simp
    then have "''First Name'' \<in> set xs" using assms(2) Cons by auto
    then have "fieldCompare lc x ''First Name'' \<le> 0" using assms(1) Cons by simp
    then show False using x unfolding fieldCompare_le_cases by blast
  qed
qed

lemma last_name_first:
  assumes "sorted_wrt (\<lambda>a b. fieldCompare lc a b \<le> 0) ks" "''Last Name'' \<in> set ks"
    "''First Name'' \<notin> set ks"
  shows "ks ! 0 = ''Last Name''"
proof (cases ks)
  case Nil
  then show ?thesis using assms(2) by simp
next
  case (Cons x xs)
  show ?thesis
  proof (rule ccontr)
    assume "ks ! 0 \<noteq> ''Last Name''"
    then have x: "x \<noteq> ''Last Name''" using Cons by simp
    have x': "x \<noteq> ''First Name''" using assms(3) Cons by auto
    have "''Last Name'' \<in> set xs" using x assms(2) Cons by auto
    then have "fieldCompare lc x ''Last Name'' \<le> 0" using assms(1) Cons by simp
    then show False using x x' unfolding fieldCompare_le_cases by blast
  qed
qed

lemma last_name_second:
  assumes "sorted_wrt (\<lambda>a b. fieldCompare lc a b \<le> 0) ks" "distinct ks"
    "''Last Name'' \<in> set ks"
  shows "ks ! (if ''First Name'' \<in> set ks then 1 else 0) = ''Last Name''"
proof (cases "''First Name'' \<in> set ks")
  case False
  then show ?thesis using last_name_first [OF assms(1,3)] by simp
next
  case True
  then have h: "ks ! 0 = ''First Name''" using assms(1) by (rule first_name_first [rotated])
  obtain x xs where ks: "ks = x # xs" using True by (cases ks) auto
  then have x: "x = ''First Name''" using h by simp
  have "''First Name'' \<notin> set xs" using assms(2) ks x by simp
  moreover have "''Last Name'' \<in> set xs" using assms(3) ks x by simp
  moreover have "sorted_wrt (\<lambda>a b. fieldCompare lc a b \<le> 0) xs" using assms(1) ks by simp
  ultimately have "xs ! 0 = ''Last Name''" by (intro last_name_first)
  then show ?thesis using True ks by simp
qed

lemma locale_order_of_rest:
  assumes "sorted_wrt (\<lambda>a b. fieldCompare lc a b \<le> 0) ks" "i < j" "j < length ks"
    "ks ! i \<noteq> ''First Name''" "ks ! i \<noteq> ''Last Name''"
  shows "lc (ks ! i) (ks ! j) \<le> 0"
proof -
  have "fieldCompare lc (ks ! i) (ks ! j) \<le> 0"
    using assms(1,2,3) by (rule sorted_wrt_nth_less)
  then show ?thesis using assms(4,5) unfolding fieldCompare_le_cases by blast
qed

lemma escapeQuotes_append: "escapeQuotes (u @ w) = escapeQuotes u @ escapeQuotes w"
  by (simp add: escapeQuotes_def)

lemma allOrError_all:
  "\<forall>x\<in>set xs. f x = Inr (g x) \<Longrightarrow> allOrError (map f xs) = Inr (map g xs)"
  by (induction xs) simp_all

lemma cell_own_or_plain:
  "k \<notin> set inheritedNames \<Longrightarrow>
     cell obj k = Inr (''\"'' @ escapeQuotes (case getProp obj k of Some v \<Rightarrow> v | None \<Rightarrow> []) @ ''\"'')"
  by (simp add: cell_def escapeQuotes_def split: option.splits)

lemma csvRow_plain:
  assumes "\<forall>k\<in>set ks. k \<notin> set inheritedNames"
  shows "csvRow ks obj =
     Inr (join '','' (map (\<lambda>k. ''\"'' @ escapeQuotes (case getProp obj k of Some v \<Rightarrow> v | None \<Rightarrow> [])
                                 @ ''\"'') ks))"
proof -
  have "allOrError (map (cell obj) ks) =
     Inr (map (\<lambda>k. ''\"'' @ escapeQuotes (case getProp obj k of Some v \<Rightarrow> v | None \<Rightarrow> []) @ ''\"'') ks)"
    using assms by (intro allOrError_all) (simp add: cell_own_or_plain)
  then show ?thesis by (simp add: csvRow_def)
qed

lemma convertToCSVDyn_plain:
  assumes "\<forall>obj\<in>set cs. \<forall>k\<in>fst ` set obj. k \<notin> set inheritedNames"
  shows "convertToCSVDyn lc cs =
           Inr (join [LF]
             (join '','' (sortedFields lc cs)
              # map (\<lambda>obj. join '',''
                       (map (\<lambda>k. ''\"'' @ escapeQuotes (case getProp obj k of Some v \<Rightarrow> v | None \<Rightarrow> [])
                                  @ ''\"'')
                          (sortedFields lc cs)))
                  cs))"
proof -
  let ?ks = "sortedFields lc cs"
  have e: "set ?ks = (\<Union>obj\<in>set cs. fst ` set obj)"
    by (simp add: sortedFields_def set_sortBy set_allFields)
  have "\<forall>k\<in>set ?ks. k \<notin> set inheritedNames" using assms unfolding e by blast
  then have "\<forall>obj\<in>set cs. csvRow ?ks obj =
     Inr (join '','' (map (\<lambda>k. ''\"'' @ escapeQuotes (case getProp obj k of Some v \<Rightarrow> v | None \<Rightarrow> [])
                                 @ ''\"'') ?ks))"
    using csvRow_plain by blast
  then have "allOrError (map (csvRow ?ks) cs) =
     Inr (map (\<lambda>obj. join '','' (map (\<lambda>k. ''\"'' @ escapeQuotes (case getProp obj k of Some v \<Rightarrow> v | None \<Rightarrow> [])
                                 @ ''\"'') ?ks)) cs)"
    by (rule allOrError_all)
  then show ?thesis by (simp add: convertToCSVDyn_def Let_def)
qed

text \<open>
  C3. Let \<open>localeCompare\<close> be a total preorder, and let no record have a key that names a
  member every object inherits (extraction never produces such a key, see
  \<open>parseVCFDyn_keys_not_inherited\<close> below). Then the dynamic-schema serialiser returns a
  document. Its header row is the comma-joined list of the keys of all records, each key
  once, in ascending order of the comparator: First Name first and Last Name next when they
  occur, the other keys in ascending \<open>localeCompare\<close> order. Each record gives one row: for
  each header key in turn the record's value, or the empty string if the record has no
  such key, with every double quote doubled and the cell wrapped in double quotes; cells are
  joined by commas and rows by line feeds. The value \<open>He said "hi"\<close> becomes
  \<open>He said ""hi""\<close> inside its cell.
\<close>

theorem convertToCSVDyn_header_and_rows:
  assumes "\<forall>a b. lc a b \<le> 0 \<or> lc b a \<le> 0"
    and "\<forall>a b c. lc a b \<le> 0 \<and> lc b c \<le> 0 \<longrightarrow> lc a c \<le> 0"
    and "\<forall>obj\<in>set cs. \<forall>k\<in>fst ` set obj. k \<notin> set inheritedNames"
  shows "convertToCSVDyn lc cs =
           Inr (join [LF]
             (join '','' (sortedFields lc cs)
              # map (\<lambda>obj. join '',''
                       (map (\<lambda>k. ''\"'' @ escapeQuotes (case getProp obj k of Some v \<Rightarrow> v | None \<Rightarrow> [])
                                  @ ''\"'')
                          (sortedFields lc cs)))
                  cs))
         \<and> set (sortedFields lc cs) = (\<Union>obj\<in>set cs. fst ` set obj)
         \<and> distinct (sortedFields lc cs)
         \<and> sorted_wrt (\<lambda>a b. fieldCompare lc a b \<le> 0) (sortedFields lc cs)
         \<and> (''First Name'' \<in> set (sortedFields lc cs) \<longrightarrow> sortedFields lc cs ! 0 = ''First Name'')
         \<and> (''Last Name'' \<in> set (sortedFields lc cs) \<longrightarrow>
              sortedFields lc cs ! (if ''First Name'' \<in> set (sortedFields lc cs) then 1 else 0)
                = ''Last Name'')
         \<and> (\<forall>i j. i < j \<and> j < length (sortedFields lc cs)
                \<and> sortedFields lc cs ! i \<noteq> ''First Name'' \<and> sortedFields lc cs ! i \<noteq> ''Last Name''
              \<longrightarrow> lc (sortedFields lc cs ! i) (sortedFields lc cs ! j) \<le> 0)
         \<and> escapeQuotes (u @ w) = escapeQuotes u @ escapeQuotes w
         \<and> escapeQuotes [c] = (if c = CHR ''\"'' then ''\"\"'' else [c])
         \<and> escapeQuotes ''He said \"hi\"'' = ''He said \"\"hi\"\"''"
proof -
  let ?ks = "sortedFields lc cs"
  have s: "sorted_wrt (\<lambda>a b. fieldCompare lc a b \<le> 0) ?ks"
    unfolding sortedFields_def
    by (rule sorted_sortBy [OF fieldCompare_total [OF assms(1)] fieldCompare_trans [OF assms(2)]])
  have d: "distinct ?ks" by (simp add: sortedFields_def distinct_sortBy distinct_allFields)
  have e: "set ?ks = (\<Union>obj\<in>set cs. fst ` set obj)"
    by (simp add: sortedFields_def set_sortBy set_allFields)
  have r: "convertToCSVDyn lc cs =
           Inr (join [LF]
             (join '','' ?ks
              # map (\<lambda>obj. join '',''
                       (map (\<lambda>k. ''\"'' @ escapeQuotes (case getProp obj k of Some v \<Rightarrow> v | None \<Rightarrow> [])
                                  @ ''\"'')
                          ?ks))
                  cs))"
    using assms(3) by (rule convertToCSVDyn_plain)
  have f: "''First Name'' \<in> set ?ks \<longrightarrow> ?ks ! 0 = ''First Name''"
    using first_name_first [OF s] by blast
  have l: "''Last Name'' \<in> set ?ks \<longrightarrow>
              ?ks ! (if ''First Name'' \<in> set ?ks then 1 else 0) = ''Last Name''"
    using last_name_second [OF s d] by blast
  have o: "\<forall>i j. i < j \<and> j < length ?ks \<and> ?ks ! i \<noteq> ''First Name'' \<and> ?ks ! i \<noteq> ''Last Name''
              \<longrightarrow> lc (?ks ! i) (?ks ! j) \<le> 0"
    using locale_order_of_rest [OF s] by blast
  have q: "escapeQuotes [c] = (if c = CHR ''\"'' then ''\"\"'' else [c])"
    "escapeQuotes ''He said \"hi\"'' = ''He said \"\"hi\"\"''"
    by (simp_all add: escapeQuotes_def)
  show ?thesis using r e d s f l o escapeQuotes_append q by blast
qed

lemma codeUnitCompare_total: "\<forall>a b. codeUnitCompare a b \<le> 0 \<or> codeUnitCompare b a \<le> 0"
  by (simp add: codeUnitCompare_def)

lemma codeUnitCompare_le: "codeUnitCompare a b \<le> 0 \<longleftrightarrow> a \<le> b"
  by (auto simp: codeUnitCompare_def)

lemma codeUnitCompare_trans:
  "\<forall>a b c. codeUnitCompare a b \<le> 0 \<and> codeUnitCompare b c \<le> 0 \<longrightarrow> codeUnitCompare a c \<le> 0"
  unfolding codeUnitCompare_le by auto

theorem convertToCSVDyn_header_and_rows_witness:
  "convertToCSVDyn codeUnitCompare
     [[(''Phone'', ''1''), (''First Name'', ''Ann''), (''Last Name'', ''Lee'')],
      [(''First Name'', ''Bob''), (''Last Name'', []), (''Email'', ''He said \"hi\"'')]]
   = Inr (''First Name,Last Name,Email,Phone'' @ [LF]
     @ ''\"Ann\",\"Lee\",\"\",\"1\"'' @ [LF]
     @ ''\"Bob\",\"\",\"He said \"\"hi\"\"\",\"\"'')"
proof -
  let ?cs = "[[(''Phone'', ''1''), (''First Name'', ''Ann''), (''Last Name'', ''Lee'')],
      [(''First Name'', ''Bob''), (''Last Name'', []), (''Email'', ''He said \"hi\"'')]]"
  have k: "sortedFields codeUnitCompare ?cs = [''First Name'', ''Last Name'', ''Email'', ''Phone'']"
    by code_simp
  have h: "\<forall>obj\<in>set ?cs. \<forall>k\<in>fst ` set obj. k \<notin> set inheritedNames"
    by code_simp
  have "convertToCSVDyn codeUnitCompare ?cs =
           Inr (join [LF]
             (join '','' (sortedFields codeUnitCompare ?cs)
              # map (\<lambda>obj. join '',''
                       (map (\<lambda>k. ''\"'' @ escapeQuotes (case getProp obj k of Some v \<Rightarrow> v | None \<Rightarrow> [])
                                  @ ''\"'')
                          (sortedFields codeUnitCompare ?cs)))
                  ?cs))"
    using convertToCSVDyn_header_and_rows [OF codeUnitCompare_total codeUnitCompare_trans h]
    by blast
  also have "\<dots> = Inr (''First Name,Last Name,Email,Phone'' @ [LF]
     @ ''\"Ann\",\"Lee\",\"\",\"1\"'' @ [LF]
     @ ''\"Bob\",\"\",\"He said \"\"hi\"\"\",\"\"'')"
    unfolding k by code_simp
  finally show ?thesis .
qed

text \<open>The error branch is live: a record that lacks a key named like an inherited member,
  which another record has, makes the serialiser throw.\<close>

lemma convertToCSVDyn_inherited_key:
  "convertToCSVDyn codeUnitCompare
     [[(''First Name'', ''Ann''), (''Last Name'', ''Lee''), (''constructor'', ''x'')],
      [(''First Name'', ''Bob''), (''Last Name'', ''Ray'')]] = Inl TypeError"
  by code_simp

section \<open>Extraction stores under own keys only\<close>

lemma keys_setProp: "fst ` set (setProp k v obj) = insert k (fst ` set obj)"
  by (induction obj) auto

lemma mapped_not_inherited:
  "map_of (fieldMapping @ inheritedMembers) t = Some name \<Longrightarrow> name \<notin> set inheritedNames"
proof -
  assume "map_of (fieldMapping @ inheritedMembers) t = Some name"
  then have "(t, name) \<in> set (fieldMapping @ inheritedMembers)" by (rule map_of_SomeD)
  then have "name \<in> snd ` set (fieldMapping @ inheritedMembers)" by force
  then show ?thesis
    by (auto simp: fieldMapping_def inheritedMembers_def inheritedNames_def nativeFunction_def)
qed

lemma unmapped_not_inherited:
  "map_of (fieldMapping @ inheritedMembers) t = None \<Longrightarrow> t \<notin> set inheritedNames"
proof -
  assume "map_of (fieldMapping @ inheritedMembers) t = None"
  then have "t \<notin> fst ` set (fieldMapping @ inheritedMembers)" by (metis map_of_eq_None_iff)
  then show ?thesis by (auto simp: inheritedNames_def)
qed

lemma capital_not_inherited:
  "hd s \<in> {CHR ''P'', CHR ''E'', CHR ''A'', CHR ''F'', CHR ''L''} \<Longrightarrow> s \<notin> set inheritedNames"
  by (auto simp: inheritedNames_def inheritedMembers_def)

lemma withType_hd: "b \<noteq> [] \<Longrightarrow> hd (withType b params) = hd b"
  by (simp add: withType_def Let_def split: option.splits)

lemma normalizeFieldName_not_inherited: "normalizeFieldName f \<notin> set inheritedNames"
proof -
  let ?t = "nthOrEmpty (splitChar (CHR '';'') f) 0"
  let ?p = "drop 1 (splitChar (CHR '';'') f)"
  consider "?t = ''TEL''" | "?t \<noteq> ''TEL''" "?t = ''EMAIL''"
    | "?t \<noteq> ''TEL''" "?t \<noteq> ''EMAIL''" "?t = ''ADR''"
    | "?t \<noteq> ''TEL''" "?t \<noteq> ''EMAIL''" "?t \<noteq> ''ADR''" by blast
  then show ?thesis
  proof cases
    case 1
    then have "normalizeFieldName f = withType ''Phone'' ?p"
      by (simp add: normalizeFieldName_def Let_def)
    then show ?thesis using withType_hd [of "''Phone''" ?p] by (intro capital_not_inherited) simp
  next
    case 2
    then have "normalizeFieldName f = withType ''Email'' ?p"
      by (simp add: normalizeFieldName_def Let_def)
    then show ?thesis using withType_hd [of "''Email''" ?p] by (intro capital_not_inherited) simp
  next
    case 3
    then have "normalizeFieldName f = withType ''Address'' ?p"
      by (simp add: normalizeFieldName_def Let_def)
    then show ?thesis using withType_hd [of "''Address''" ?p] by (intro capital_not_inherited) simp
  next
    case 4
    then have "normalizeFieldName f =
       (case map_of (fieldMapping @ inheritedMembers) ?t of Some name \<Rightarrow> name | None \<Rightarrow> ?t)"
      by (simp add: normalizeFieldName_def Let_def)
    then show ?thesis
      using mapped_not_inherited [of ?t] unmapped_not_inherited [of ?t]
      by (cases "map_of (fieldMapping @ inheritedMembers) ?t") (simp_all del: map_of_append)
  qed
qed

lemma spaced_not_inherited: "L @ CHR '' '' # r \<notin> set inheritedNames"
proof
  assume "L @ CHR '' '' # r \<in> set inheritedNames"
  moreover have "\<forall>n\<in>set inheritedNames. CHR '' '' \<notin> set n"
    by (simp add: inheritedNames_def inheritedMembers_def)
  ultimately have "CHR '' '' \<notin> set (L @ CHR '' '' # r)" by blast
  then show False by simp
qed

lemma ownKeys_setProp: "k \<notin> set inheritedNames \<Longrightarrow> ownKeys obj \<Longrightarrow> ownKeys (setProp k v obj)"
  by (simp add: ownKeys_def keys_setProp)

lemma ownKeys_storeCounted:
  "ownKeys (contact st) \<Longrightarrow> ownKeys (contact (storeCounted (normalizeFieldName f) v st))"
  by (simp add: storeCounted_def Let_def ownKeys_setProp normalizeFieldName_not_inherited
        spaced_not_inherited)

lemma name_keys_not_inherited:
  "''First Name'' \<notin> set inheritedNames" "''Last Name'' \<notin> set inheritedNames"
  by (simp_all add: inheritedNames_def inheritedMembers_def)

lemma ownKeys_lineStepDyn:
  assumes "ownKeys (contact st)"
  shows "ownKeys (contact (lineStepDyn st line))"
proof (cases "countedField line")
  case (Some a)
  obtain L v where a: "a = (L, v)" by (cases a)
  have "\<exists>f. L = normalizeFieldName f"
    using Some unfolding a countedField_def Let_def
    by (auto split: if_splits option.splits)
  then show ?thesis
    using lineStepDyn_counted [of line L v st] Some a assms ownKeys_storeCounted by auto
next
  case None
  have n: "ownKeys (setProp ''Last Name'' y (setProp ''First Name'' x (contact st)))"
          "ownKeys (setProp ''First Name'' x (contact st))"
          "ownKeys (setProp ''Last Name'' y (contact st))" for x y
    using assms by (simp_all add: ownKeys_setProp name_keys_not_inherited)
  show ?thesis
    using None assms n unfolding countedField_def lineStepDyn_def Let_def
    by (auto split: if_splits option.splits prod.splits)
qed

lemma ownKeys_foldl:
  "ownKeys (contact st) \<Longrightarrow> ownKeys (contact (foldl lineStepDyn st ls))"
  by (induction ls arbitrary: st) (simp_all add: ownKeys_lineStepDyn)

lemma ownKeys_parseVCardDyn: "ownKeys (parseVCardDyn b)"
proof -
  have "ownKeys (contact (foldl lineStepDyn initDynVars (splitLines b)))"
    by (rule ownKeys_foldl) (simp add: initDynVars_def ownKeys_def)
  then show ?thesis
    by (simp add: parseVCardDyn_def ensureNames_def Let_def ownKeys_setProp name_keys_not_inherited)
qed

text \<open>
  Extraction never stores a value under the name of an inherited member: a label is a table
  entry, a field type the table does not have, or starts with Phone, Email or Address; a
  numbered key has a space in it. So the reads of the record and of the repeat counts by
  label see own properties only, and serialising the records of \<open>parseVCFDyn\<close> never
  throws.
\<close>

lemma parseVCFDyn_keys_not_inherited:
  "\<forall>obj\<in>set (parseVCFDyn s). \<forall>k\<in>fst ` set obj. k \<notin> set inheritedNames"
  using ownKeys_parseVCardDyn by (auto simp: parseVCFDyn_def ownKeys_def)

lemma convertToCSVDyn_of_parse_returns:
  "\<exists>csv. convertToCSVDyn lc (parseVCFDyn s) = Inr csv"
  using convertToCSVDyn_plain [OF parseVCFDyn_keys_not_inherited] by blast

end
